theory Spec2Isabelle
  imports Complex_Main "HOL-Library.Word"
begin

unbundle bit_operations_syntax

section \<open>The hash mixer\<close>

text \<open>
  \<^verbatim>\<open>hash_function\<close> of hedges.py. The argument is a Python integer; multiplying it by a
  numpy \<^verbatim>\<open>longlong\<close> scalar gives a signed 64-bit value, and every later operation stays in
  that type: \<^verbatim>\<open>*\<close> and \<^verbatim>\<open>+\<close> wrap around, \<^verbatim>\<open><<\<close> drops the bits shifted out, and
  \<^verbatim>\<open>>>\<close> on a signed value propagates the sign bit. The callers pass
  \<^verbatim>\<open>bit_index | previous_value | salt_index\<close>, which is non-negative and, with the default
  widths 10, 8 and 46, below \<open>2 ^ 46\<close>, so that the conversion to 64 bits is exact there.
\<close>

definition hash_function :: "int \<Rightarrow> 64 word" where
  "hash_function source_value =
    (let target_value = word_of_int source_value * 3935559000370003845;
         target_value = target_value + 2691343689449507681;
         target_value = target_value XOR signed_drop_bit 21 target_value;
         target_value = target_value XOR push_bit 37 target_value;
         target_value = target_value XOR signed_drop_bit 4 target_value;
         target_value = target_value * 4768777513237032717;
         target_value = target_value XOR push_bit 20 target_value;
         target_value = target_value XOR signed_drop_bit 41 target_value;
         target_value = target_value XOR push_bit 5 target_value
     in target_value)"

text \<open>
  The scrambler in the words of the specification, on integers with the reductions modulo
  \<open>2 ^ 64\<close> written out. The specification gives three constants and does not say whether
  \<^verbatim>\<open>>>\<close> propagates the sign, so the constants and the right shift are parameters.
\<close>

definition logical_shift_right :: "nat \<Rightarrow> int \<Rightarrow> int" where
  "logical_shift_right n y = y div 2 ^ n"

definition arithmetic_shift_right :: "nat \<Rightarrow> int \<Rightarrow> int" where
  "arithmetic_shift_right n y =
     ((if y < 2 ^ 63 then y else y - 2 ^ 64) div 2 ^ n) mod 2 ^ 64"

definition shift_left :: "nat \<Rightarrow> int \<Rightarrow> int" where
  "shift_left n y = (y * 2 ^ n) mod 2 ^ 64"

definition scrambler :: "(nat \<Rightarrow> int \<Rightarrow> int) \<Rightarrow> int \<Rightarrow> int \<Rightarrow> int \<Rightarrow> int \<Rightarrow> int" where
  "scrambler shift_right c1 c2 c3 x =
    (let y = (x * c1) mod 2 ^ 64;
         y = (y + c2) mod 2 ^ 64;
         y = y XOR shift_right 21 y;
         y = y XOR shift_left 37 y;
         y = y XOR shift_right 4 y;
         y = (y * c3) mod 2 ^ 64;
         y = y XOR shift_left 20 y;
         y = y XOR shift_right 41 y;
         y = y XOR shift_left 5 y
     in y)"

section \<open>Data of the codec\<close>

text \<open>
  The three widths \<^verbatim>\<open>salt_number\<close>, \<^verbatim>\<open>previous_number\<close> and \<^verbatim>\<open>low_order_number\<close>, which
  every entry point takes as keyword arguments with the defaults 46, 8 and 10.
\<close>

record params =
  salt_number :: nat
  previous_number :: nat
  low_order_number :: nat

definition default_params :: params where
  "default_params = \<lparr>salt_number = 46, previous_number = 8, low_order_number = 10\<rparr>"

text \<open>
  The two \<^verbatim>\<open>ValueError\<close>s of the code, each carrying the strand index in its message, and
  the \<^verbatim>\<open>IndexError\<close> of a list read out of range.
\<close>

datatype error = CannotBeEncoded nat | ContainsErrors nat | IndexError

text \<open>
  Modelled from the spec: \<^verbatim>\<open>bit_to_number\<close> is imported from the package \<^verbatim>\<open>dsw\<close> and is not
  part of the sources; the window is read most-significant bit first.
\<close>

definition bit_to_number :: "nat list \<Rightarrow> nat" where
  "bit_to_number previous_info = foldl (\<lambda>a b. 2 * a + b) 0 previous_info"

text \<open>
  The oracle \<^verbatim>\<open>bio_filter.valid(s, only_last=True)\<close> is a parameter \<open>valid\<close>. The loop
  that collects the nucleotides of the mapping which may follow a prefix, in mapping order,
  occurs in \<^verbatim>\<open>encode\<close>, \<^verbatim>\<open>decode\<close> and \<^verbatim>\<open>InfoVertex.next\<close>.
\<close>

definition collect_available :: "char list \<Rightarrow> (string \<Rightarrow> bool) \<Rightarrow> string \<Rightarrow> char list" where
  "collect_available mapping valid prefix =
     filter (\<lambda>potential_nucleotide. valid (prefix @ [potential_nucleotide])) mapping"

text \<open>The argument of the hash, a bitwise OR of three Python integers, and its residue.\<close>

definition hash_value :: "nat \<Rightarrow> nat \<Rightarrow> nat \<Rightarrow> nat \<Rightarrow> nat" where
  "hash_value m bit_idx previous salt_index =
     unat (hash_function (int (bit_idx OR previous OR salt_index))) mod m"

section \<open>The encoder\<close>

text \<open>
  One pass of the \<^verbatim>\<open>while\<close> loop of \<^verbatim>\<open>encode\<close>, from the state
  \<open>(dna_string, available_nucleotides, bit_location)\<close> with \<open>bit_location\<close> inside the
  message. Reading \<^verbatim>\<open>available_nucleotides[..]\<close> of an empty list raises \<^verbatim>\<open>IndexError\<close>
  (the last branch is taken for every length other than 1, 2 and 3), and an empty
  available list after the emission raises the \<^verbatim>\<open>ValueError\<close>.
\<close>

definition encode_previous :: "params \<Rightarrow> nat list \<Rightarrow> nat \<Rightarrow> nat" where
  "encode_previous p binary_message bit_location =
     (if int bit_location - int (previous_number p) \<ge> 0
      then bit_to_number (take (previous_number p)
             (drop (bit_location - previous_number p) binary_message))
      else 0)"

definition encode_choice ::
  "params \<Rightarrow> nat list \<Rightarrow> nat \<Rightarrow> char list \<Rightarrow> nat \<Rightarrow> error + (char \<times> nat)" where
  "encode_choice p binary_message strand_index available_nucleotides bit_location =
    (let salt_index = strand_index mod 2 ^ salt_number p;
         bit_idx = bit_location mod 2 ^ low_order_number p;
         previous = encode_previous p binary_message bit_location
     in if length available_nucleotides = 1
        then Inr (available_nucleotides ! 0, bit_location)
        else if length available_nucleotides = 2 \<or> length available_nucleotides = 3
        then (let h = hash_value 2 bit_idx previous salt_index;
                  bit_value = binary_message ! bit_location
              in Inr (available_nucleotides ! ((h + bit_value) mod 2), bit_location + 1))
        else (let h = hash_value 4 bit_idx previous salt_index;
                  bit_value = (if bit_location + 2 \<le> length binary_message
                               then binary_message ! bit_location * 2
                                    + binary_message ! (bit_location + 1)
                               else binary_message ! bit_location)
              in if available_nucleotides = [] then Inl IndexError
                 else Inr (available_nucleotides ! ((h + bit_value) mod 4), bit_location + 2)))"

definition encode_step ::
  "params \<Rightarrow> nat list \<Rightarrow> nat \<Rightarrow> char list \<Rightarrow> (string \<Rightarrow> bool) \<Rightarrow>
   string \<times> char list \<times> nat \<Rightarrow> error + (string \<times> char list \<times> nat)" where
  "encode_step p binary_message strand_index mapping valid state =
    (case state of (dna_string, available_nucleotides, bit_location) \<Rightarrow>
      (case encode_choice p binary_message strand_index available_nucleotides bit_location of
         Inl e \<Rightarrow> Inl e
       | Inr (nucleotide, bit_location') \<Rightarrow>
          (let dna_string' = dna_string @ [nucleotide];
               available' = collect_available mapping valid dna_string'
           in if length available' = 0 then Inl (CannotBeEncoded strand_index)
              else Inr (dna_string', available', bit_location'))))"

text \<open>
  The loop itself. It need not end: while the available list has one element no bit is
  consumed. Not returning is the value \<open>None\<close>.
\<close>

partial_function (option) encode_loop ::
  "params \<Rightarrow> nat list \<Rightarrow> nat \<Rightarrow> char list \<Rightarrow> (string \<Rightarrow> bool) \<Rightarrow>
   string \<times> char list \<times> nat \<Rightarrow> (error + string) option" where
  "encode_loop p binary_message strand_index mapping valid state =
    (if snd (snd state) < length binary_message
     then (case encode_step p binary_message strand_index mapping valid state of
             Inl e \<Rightarrow> Some (Inl e)
           | Inr state' \<Rightarrow> encode_loop p binary_message strand_index mapping valid state')
     else Some (Inr (fst state)))"

declare encode_loop.simps [code]

definition encode ::
  "nat list \<Rightarrow> nat \<Rightarrow> char list \<Rightarrow> (string \<Rightarrow> bool) \<Rightarrow> params \<Rightarrow> (error + string) option" where
  "encode binary_message strand_index mapping valid p =
     encode_loop p binary_message strand_index mapping valid ([], mapping, 0)"

text \<open>
  The available list from which the nucleotide at index \<open>i\<close> of a string is chosen: the
  whole mapping at index 0, where no oracle query has been made yet, and afterwards the
  list collected for the first \<open>i\<close> nucleotides.
\<close>

definition available_at :: "char list \<Rightarrow> (string \<Rightarrow> bool) \<Rightarrow> string \<Rightarrow> nat \<Rightarrow> char list" where
  "available_at mapping valid dna_string i =
     (if i = 0 then mapping else collect_available mapping valid (take i dna_string))"

section \<open>The decoder\<close>

text \<open>
  One pass of the \<^verbatim>\<open>for\<close> loop of \<^verbatim>\<open>decode\<close>. \<open>consumed\<close> is
  \<^verbatim>\<open>dna_string[:nucleotide_index]\<close>, so that \<^verbatim>\<open>dna_string[:nucleotide_index + 1]\<close> is
  \<open>consumed @ [nucleotide]\<close>. The inner \<^verbatim>\<open>for bit_value in range(4)\<close> with its
  \<^verbatim>\<open>break\<close> takes the first value that fits and appends nothing when none does.
\<close>

definition decode_previous :: "params \<Rightarrow> nat list \<Rightarrow> nat" where
  "decode_previous p binary_message =
     (if int (length binary_message) - int (previous_number p) \<ge> 0
      then bit_to_number (drop (length binary_message - previous_number p) binary_message)
      else 0)"

definition decode_bits ::
  "params \<Rightarrow> nat \<Rightarrow> nat \<Rightarrow> char list \<Rightarrow> nat list \<Rightarrow> char \<Rightarrow> error + nat list" where
  "decode_bits p strand_index bit_length available_nucleotides binary_message nucleotide =
    (let salt_index = strand_index mod 2 ^ salt_number p;
         bit_idx = length binary_message mod 2 ^ low_order_number p;
         previous = decode_previous p binary_message
     in if length available_nucleotides = 1
        then Inr binary_message
        else if length available_nucleotides = 2 \<or> length available_nucleotides = 3
        then (let h = hash_value 2 bit_idx previous salt_index
              in if available_nucleotides ! ((h + 0) mod 2) = nucleotide
                 then Inr (binary_message @ [0])
                 else Inr (binary_message @ [1]))
        else (let h = hash_value 4 bit_idx previous salt_index
              in if available_nucleotides = [] then Inl IndexError
                 else (case find (\<lambda>bit_value.
                               available_nucleotides ! ((h + bit_value) mod 4) = nucleotide)
                             [0, 1, 2, 3] of
                         None \<Rightarrow> Inr binary_message
                       | Some bit_value \<Rightarrow>
                           if length binary_message + 2 > bit_length
                           then Inr (binary_message @ [bit_value mod 2])
                           else Inr (binary_message @ [bit_value div 2, bit_value mod 2]))))"

fun decode_loop ::
  "params \<Rightarrow> nat \<Rightarrow> nat \<Rightarrow> char list \<Rightarrow> (string \<Rightarrow> bool) \<Rightarrow>
   string \<Rightarrow> string \<Rightarrow> nat list \<Rightarrow> char list \<Rightarrow> error + nat list" where
  "decode_loop p strand_index bit_length mapping valid consumed [] binary_message
     available_nucleotides = Inr binary_message"
| "decode_loop p strand_index bit_length mapping valid consumed (nucleotide # rest)
     binary_message available_nucleotides =
    (case decode_bits p strand_index bit_length available_nucleotides binary_message
            nucleotide of
       Inl e \<Rightarrow> Inl e
     | Inr binary_message' \<Rightarrow>
        (let available' = collect_available mapping valid (consumed @ [nucleotide])
         in if length available' = 0 then Inl (ContainsErrors strand_index)
            else decode_loop p strand_index bit_length mapping valid (consumed @ [nucleotide])
                   rest binary_message' available'))"

definition decode ::
  "string \<Rightarrow> nat \<Rightarrow> nat \<Rightarrow> char list \<Rightarrow> (string \<Rightarrow> bool) \<Rightarrow> params \<Rightarrow> error + nat list" where
  "decode dna_string strand_index bit_length mapping valid p =
    (case decode_loop p strand_index bit_length mapping valid [] dna_string [] mapping of
       Inl e \<Rightarrow> Inl e
     | Inr binary_message \<Rightarrow> Inr (take bit_length binary_message))"

section \<open>Repair\<close>

text \<open>
  The class \<^verbatim>\<open>InfoVertex\<close> nested in \<^verbatim>\<open>repair\<close>, and the four penalties of \<^verbatim>\<open>repair\<close>
  with their defaults. Scores are Python floats, that is doubles. Every double is a rational
  number and scores are rationals here: the literal \<^verbatim>\<open>-0.035\<close> denotes the double
  \<open>- 1261007895663739 / 2 ^ 55\<close>, and \<^verbatim>\<open>1.0\<close> is 1. The code rounds the sum of two
  scores to a double; the model keeps the sum exact, so that the score the code gives a child
  is the rounding of the sum that the model gives it.
\<close>

record InfoVertex =
  previous_value :: nat
  bit_index :: nat
  string :: string

record penalties =
  correct_penalty :: rat
  insert_penalty :: rat
  delete_penalty :: rat
  mutate_penalty :: rat

definition default_penalties :: penalties where
  "default_penalties =
     \<lparr>correct_penalty = - (1261007895663739 / 36028797018963968),
      insert_penalty = 1, delete_penalty = 1, mutate_penalty = 1\<rparr>"

text \<open>\<^verbatim>\<open>int(floor(log2(n)))\<close> for \<open>n \<ge> 1\<close>, and \<^verbatim>\<open>product([0, 1], repeat=w)\<close>.\<close>

fun floor_log2 :: "nat \<Rightarrow> nat" where
  "floor_log2 n = (if n < 2 then 0 else Suc (floor_log2 (n div 2)))"

declare floor_log2.simps [simp del]

fun product01 :: "nat \<Rightarrow> nat list list" where
  "product01 0 = [[]]"
| "product01 (Suc w) = concat (map (\<lambda>b. map ((#) b) (product01 w)) [0, 1])"

text \<open>
  The three groups of children of \<^verbatim>\<open>InfoVertex.next\<close>, each child with its score and its
  index into the received string: the received nucleotide taken as correct or mutated, the
  received nucleotide taken as inserted, and a nucleotide taken as deleted. Each group is
  one \<^verbatim>\<open>for message_bit in product([0, 1], repeat=...)\<close> loop; its body is given first.
\<close>

definition match_child ::
  "params \<Rightarrow> penalties \<Rightarrow> char list \<Rightarrow> InfoVertex \<Rightarrow> nat \<Rightarrow> nat \<Rightarrow> rat \<Rightarrow> nat \<Rightarrow> char \<Rightarrow>
   nat list \<Rightarrow> InfoVertex \<times> rat \<times> nat" where
  "match_child p pen available_nucleotides self salt_value nucleotide_index current_score
     bit_idx nucleotide message_bit =
     (if length message_bit = 1
      then (let h = hash_value 2 bit_idx (previous_value self) salt_value;
                previous = (previous_value self * 2 + message_bit ! 0)
                             mod 2 ^ previous_number p;
                bit_value = message_bit ! 0
            in (\<lparr>previous_value = previous, bit_index = bit_index self + 1,
                  string = string self @ [nucleotide]\<rparr>,
                (if available_nucleotides ! ((h + bit_value) mod 2) = nucleotide
                 then current_score + correct_penalty pen
                 else current_score + mutate_penalty pen),
                nucleotide_index + 1))
      else if length message_bit = 2
      then (let h = hash_value 4 bit_idx (previous_value self) salt_value;
                bit_value = message_bit ! 0 * 2 + message_bit ! 1;
                previous = (previous_value self * 4 + bit_value) mod 2 ^ previous_number p
            in (\<lparr>previous_value = previous, bit_index = bit_index self + 2,
                  string = string self @ [nucleotide]\<rparr>,
                (if available_nucleotides ! ((h + bit_value) mod 4) = nucleotide
                 then current_score + correct_penalty pen
                 else current_score + mutate_penalty pen),
                nucleotide_index + 1))
      else (\<lparr>previous_value = previous_value self, bit_index = bit_index self,
              string = string self @ [nucleotide]\<rparr>,
            current_score + correct_penalty pen,
            nucleotide_index + 1))"

definition match_children ::
  "params \<Rightarrow> penalties \<Rightarrow> char list \<Rightarrow> InfoVertex \<Rightarrow> nat \<Rightarrow> nat \<Rightarrow> rat \<Rightarrow> nat \<Rightarrow> char \<Rightarrow>
   (InfoVertex \<times> rat \<times> nat) list" where
  "match_children p pen available_nucleotides self salt_value nucleotide_index current_score
     bit_idx nucleotide =
     map (match_child p pen available_nucleotides self salt_value nucleotide_index
            current_score bit_idx nucleotide)
       (product01 (floor_log2 (length available_nucleotides)))"

definition insert_child ::
  "params \<Rightarrow> char list \<Rightarrow> InfoVertex \<Rightarrow> nat \<Rightarrow> nat \<Rightarrow> char \<Rightarrow> nat list \<Rightarrow> InfoVertex option" where
  "insert_child p available_nucleotides self salt_value bit_idx nucleotide message_bit =
     (if length message_bit = 1
      then (let h = hash_value 2 bit_idx (previous_value self) salt_value;
                bit_value = message_bit ! 0;
                previous = (previous_value self * 2 + message_bit ! 0)
                             mod 2 ^ previous_number p
            in if available_nucleotides ! ((h + bit_value) mod 2) = nucleotide
               then Some \<lparr>previous_value = previous, bit_index = bit_index self + 1,
                          string = string self @ [nucleotide]\<rparr>
               else None)
      else if length message_bit = 2
      then (let h = hash_value 4 bit_idx (previous_value self) salt_value;
                bit_value = message_bit ! 0 * 2 + message_bit ! 1;
                previous = (previous_value self * 4 + bit_value) mod 2 ^ previous_number p
            in if available_nucleotides ! ((h + bit_value) mod 4) = nucleotide
               then Some \<lparr>previous_value = previous, bit_index = bit_index self + 2,
                          string = string self @ [nucleotide]\<rparr>
               else None)
      else Some \<lparr>previous_value = previous_value self, bit_index = bit_index self,
                 string = string self @ [nucleotide]\<rparr>)"

definition insert_children ::
  "params \<Rightarrow> penalties \<Rightarrow> char list \<Rightarrow> InfoVertex \<Rightarrow> nat \<Rightarrow> nat \<Rightarrow> rat \<Rightarrow> nat \<Rightarrow> char \<Rightarrow>
   (InfoVertex \<times> rat \<times> nat) list" where
  "insert_children p pen available_nucleotides self salt_value nucleotide_index current_score
     bit_idx nucleotide =
     concat (map (\<lambda>message_bit.
         (case insert_child p available_nucleotides self salt_value bit_idx nucleotide
                 message_bit of
            None \<Rightarrow> []
          | Some vertex \<Rightarrow>
              [(vertex, current_score + insert_penalty pen, nucleotide_index + 2)]))
       (product01 (floor_log2 (length available_nucleotides))))"

definition delete_child ::
  "params \<Rightarrow> penalties \<Rightarrow> char list \<Rightarrow> InfoVertex \<Rightarrow> nat \<Rightarrow> nat \<Rightarrow> rat \<Rightarrow> nat \<Rightarrow>
   nat list \<Rightarrow> (InfoVertex \<times> rat \<times> nat) list" where
  "delete_child p pen available_nucleotides self salt_value nucleotide_index current_score
     bit_idx message_bit =
     (if length message_bit = 1
      then (let h = hash_value 2 bit_idx (previous_value self) salt_value;
                bit_value = message_bit ! 0;
                previous = (previous_value self * 2 + bit_value) mod 2 ^ previous_number p;
                nucleotide = available_nucleotides ! ((h + bit_value) mod 2)
            in [(\<lparr>previous_value = previous, bit_index = bit_index self + 1,
                   string = string self @ [nucleotide]\<rparr>,
                 current_score + delete_penalty pen, nucleotide_index)])
      else if length message_bit = 2
      then (let h = hash_value 4 bit_idx (previous_value self) salt_value;
                bit_value = message_bit ! 0 * 2 + message_bit ! 1;
                previous = (previous_value self * 4 + bit_value) mod 2 ^ previous_number p;
                nucleotide = available_nucleotides ! ((h + message_bit ! 0) mod 4)
            in [(\<lparr>previous_value = previous, bit_index = bit_index self + 2,
                   string = string self @ [nucleotide]\<rparr>,
                 current_score + delete_penalty pen, nucleotide_index)])
      else map (\<lambda>nucleotide.
             (\<lparr>previous_value = previous_value self, bit_index = bit_index self,
               string = string self @ [nucleotide]\<rparr>,
              current_score + delete_penalty pen, nucleotide_index))
             available_nucleotides)"

definition delete_children ::
  "params \<Rightarrow> penalties \<Rightarrow> char list \<Rightarrow> InfoVertex \<Rightarrow> nat \<Rightarrow> nat \<Rightarrow> rat \<Rightarrow> nat \<Rightarrow>
   (InfoVertex \<times> rat \<times> nat) list" where
  "delete_children p pen available_nucleotides self salt_value nucleotide_index current_score
     bit_idx =
     concat (map (delete_child p pen available_nucleotides self salt_value nucleotide_index
                    current_score bit_idx)
       (product01 (floor_log2 (length available_nucleotides))))"

text \<open>
  \<^verbatim>\<open>InfoVertex.next\<close>: the children in the order the code appends them. The code returns
  four parallel lists (vertices, scores, indices, bit indices); here a child is one triple
  and the fourth list is the \<open>bit_index\<close> of the first components.
\<close>

definition InfoVertex_next ::
  "params \<Rightarrow> penalties \<Rightarrow> string \<Rightarrow> char list \<Rightarrow> (string \<Rightarrow> bool) \<Rightarrow>
   InfoVertex \<Rightarrow> nat \<Rightarrow> nat \<Rightarrow> rat \<Rightarrow> (InfoVertex \<times> rat \<times> nat) list" where
  "InfoVertex_next p pen dna_string mapping valid self salt_value nucleotide_index
     current_score =
    (if int nucleotide_index > int (length dna_string) - 1 then []
     else
      (let available_nucleotides = collect_available mapping valid (string self)
       in if length available_nucleotides = 0 then []
          else
           (let bit_idx = bit_index self mod 2 ^ low_order_number p
            in (if dna_string ! nucleotide_index \<in> set available_nucleotides
                then match_children p pen available_nucleotides self salt_value
                       nucleotide_index current_score bit_idx (dna_string ! nucleotide_index)
                else [])
               @ (if nucleotide_index + 1 < length dna_string
                  then (if dna_string ! (nucleotide_index + 1) \<in> set available_nucleotides
                        then insert_children p pen available_nucleotides self salt_value
                               nucleotide_index current_score bit_idx
                               (dna_string ! (nucleotide_index + 1))
                        else [])
                  else [])
               @ delete_children p pen available_nucleotides self salt_value
                   nucleotide_index current_score bit_idx)))"

text \<open>
  The priority heap: the dictionary of the four parallel lists \<^verbatim>\<open>"v"\<close>, \<^verbatim>\<open>"s"\<close>,
  \<^verbatim>\<open>"i"\<close> and \<^verbatim>\<open>"l"\<close>.
\<close>

record heap =
  heap_v :: "InfoVertex list"
  heap_s :: "rat list"
  heap_i :: "nat list"
  heap_l :: "nat list"

text \<open>
  The \<^verbatim>\<open>for chuck in used_indices\<close> loop. A chuck's score is overwritten with
  \<^verbatim>\<open>len(dna_string)\<close>, its children are computed, and then either the loop is left
  (\<open>Inl\<close>: the strings of the entries whose bit count is \<open>bit_length\<close>, as a set, and the
  heap size) or the children are appended. The progress monitor has no effect.
\<close>

fun repair_batch ::
  "params \<Rightarrow> penalties \<Rightarrow> string \<Rightarrow> nat \<Rightarrow> nat \<Rightarrow> char list \<Rightarrow> (string \<Rightarrow> bool) \<Rightarrow> nat \<Rightarrow>
   rat \<Rightarrow> nat list \<Rightarrow> heap \<Rightarrow> (string set \<times> nat) + heap" where
  "repair_batch p pen dna_string strand_index bit_length mapping valid heap_limitation
     used_score [] h = Inr h"
| "repair_batch p pen dna_string strand_index bit_length mapping valid heap_limitation
     used_score (chuck # rest) h =
    (let used_vertex = heap_v h ! chuck;
         base_index = heap_i h ! chuck;
         h = h\<lparr>heap_s := (heap_s h)[chuck := of_nat (length dna_string)]\<rparr>;
         follow_info = InfoVertex_next p pen dna_string mapping valid used_vertex
                         (strand_index mod 2 ^ salt_number p) base_index used_score
     in if bit_length = Max (set (heap_l h)) \<or> length (heap_v h) > heap_limitation
        then Inl (set (map (\<lambda>terminal_index. string (heap_v h ! terminal_index))
                        (filter (\<lambda>k. heap_l h ! k = bit_length) [0..<length (heap_l h)])),
                  length (heap_v h))
        else repair_batch p pen dna_string strand_index bit_length mapping valid
               heap_limitation used_score rest
               \<lparr>heap_v = heap_v h @ map fst follow_info,
                heap_s = heap_s h @ map (fst \<circ> snd) follow_info,
                heap_i = heap_i h @ map (snd \<circ> snd) follow_info,
                heap_l = heap_l h @ map (bit_index \<circ> fst) follow_info\<rparr>)"

text \<open>
  One pass of the \<^verbatim>\<open>while True\<close> loop: the entries of minimal score, in heap order, are
  the chucks of the batch.
\<close>

definition used_indices :: "heap \<Rightarrow> nat list" where
  "used_indices h =
     filter (\<lambda>k. heap_s h ! k = Min (set (heap_s h))) [0..<length (heap_s h)]"

definition repair_pass ::
  "params \<Rightarrow> penalties \<Rightarrow> string \<Rightarrow> nat \<Rightarrow> nat \<Rightarrow> char list \<Rightarrow> (string \<Rightarrow> bool) \<Rightarrow> nat \<Rightarrow>
   heap \<Rightarrow> (string set \<times> nat) + heap" where
  "repair_pass p pen dna_string strand_index bit_length mapping valid heap_limitation h =
     repair_batch p pen dna_string strand_index bit_length mapping valid heap_limitation
       (heap_s h ! (used_indices h ! 0)) (used_indices h) h"

text \<open>The loop has no exit but the \<^verbatim>\<open>return\<close>; not returning is the value \<open>None\<close>.\<close>

partial_function (option) repair_loop ::
  "params \<Rightarrow> penalties \<Rightarrow> string \<Rightarrow> nat \<Rightarrow> nat \<Rightarrow> char list \<Rightarrow> (string \<Rightarrow> bool) \<Rightarrow> nat \<Rightarrow>
   heap \<Rightarrow> (string set \<times> nat) option" where
  "repair_loop p pen dna_string strand_index bit_length mapping valid heap_limitation h =
    (case repair_pass p pen dna_string strand_index bit_length mapping valid
            heap_limitation h of
       Inl result \<Rightarrow> Some result
     | Inr h' \<Rightarrow> repair_loop p pen dna_string strand_index bit_length mapping valid
                  heap_limitation h')"

declare repair_loop.simps [code]

definition initial_heap :: "rat \<Rightarrow> heap" where
  "initial_heap initial_score =
     \<lparr>heap_v = [\<lparr>previous_value = 0, bit_index = 0, string = []\<rparr>],
      heap_s = [initial_score], heap_i = [0], heap_l = [0]\<rparr>"

text \<open>
  The four lists of the heap are parallel, one entry of each per vertex: the initial heap has
  one entry in each list and \<^verbatim>\<open>heap[...] += follow_info[...]\<close> appends as many entries to
  each of them.
\<close>

definition heap_aligned :: "heap \<Rightarrow> bool" where
  "heap_aligned h =
     (length (heap_v h) = length (heap_s h) \<and> length (heap_i h) = length (heap_s h) \<and>
      length (heap_l h) = length (heap_s h))"

definition repair ::
  "string \<Rightarrow> nat \<Rightarrow> rat \<Rightarrow> nat \<Rightarrow> char list \<Rightarrow> (string \<Rightarrow> bool) \<Rightarrow> params \<Rightarrow> nat \<Rightarrow>
   penalties \<Rightarrow> (string set \<times> nat) option" where
  "repair dna_string strand_index initial_score bit_length mapping valid p heap_limitation
     pen =
     repair_loop p pen dna_string strand_index bit_length mapping valid heap_limitation
       (initial_heap initial_score)"

section \<open>Oracles of the examples\<close>

text \<open>
  A local constraint that forbids every two-nucleotide motif beginning with G: a string is
  rejected when its last but one nucleotide is G.
\<close>

definition nothing_after_G :: "string \<Rightarrow> bool" where
  "nothing_after_G s = (length s < 2 \<or> s ! (length s - 2) \<noteq> CHR ''G'')"

text \<open>
  A local constraint that forbids the nucleotide A: with \<^verbatim>\<open>only_last\<close> the oracle looks at
  the last nucleotide only.
\<close>

definition A_forbidden :: "string \<Rightarrow> bool" where
  "A_forbidden s = (s = [] \<or> last s \<noteq> CHR ''A'')"

section \<open>The hash mixer: bit-exactness\<close>

text \<open>The hash step by step, for evaluating it at a given argument.\<close>

lemma hash_function_steps:
  "y1 = word_of_int x * 3935559000370003845 + 2691343689449507681 \<Longrightarrow>
   y2 = y1 XOR signed_drop_bit 21 y1 \<Longrightarrow>
   y3 = y2 XOR push_bit 37 y2 \<Longrightarrow>
   y4 = y3 XOR signed_drop_bit 4 y3 \<Longrightarrow>
   y5 = y4 * 4768777513237032717 \<Longrightarrow>
   y6 = y5 XOR push_bit 20 y5 \<Longrightarrow>
   y7 = y6 XOR signed_drop_bit 41 y6 \<Longrightarrow>
   y8 = y7 XOR push_bit 5 y7 \<Longrightarrow>
   hash_function x = y8"
  by (simp only: hash_function_def Let_def)

lemma hash_function_0: "hash_function 0 = 0xAB439D0C12B80DE3"
  by (rule hash_function_steps [where ?y1.0 = 2691343689449507681
        and ?y2.0 = 2691344951307278192 and ?y3.0 = 17553762482327525232
        and ?y4.0 = 910512342903387655 and ?y5.0 = 17763707895799957339
        and ?y6.0 = 1582365884918613851 and ?y7.0 = 1582365884919299459]) simp_all

lemma hash_function_1: "hash_function 1 = 0xBEA952A971BA8E83"
  by (rule hash_function_steps [where ?y1.0 = 6626902689819511526
        and ?y2.0 = 6626904177293582200 and ?y3.0 = 6894044820912922488
        and ?y4.0 = 6509487269636797071 and ?y5.0 = 13839380136197591619
        and ?y6.0 = 7962716610997228099 and ?y7.0 = 7962716610997834467]) simp_all

lemma scrambler_steps:
  "y1 = ((x * c1) mod 2 ^ 64 + c2) mod 2 ^ 64 \<Longrightarrow>
   y2 = y1 XOR shift_right 21 y1 \<Longrightarrow>
   y3 = y2 XOR shift_left 37 y2 \<Longrightarrow>
   y4 = y3 XOR shift_right 4 y3 \<Longrightarrow>
   y5 = (y4 * c3) mod 2 ^ 64 \<Longrightarrow>
   y6 = y5 XOR shift_left 20 y5 \<Longrightarrow>
   y7 = y6 XOR shift_right 41 y6 \<Longrightarrow>
   y8 = y7 XOR shift_left 5 y7 \<Longrightarrow>
   scrambler shift_right c1 c2 c3 x = y8"
  by (simp only: scrambler_def Let_def)

lemma scrambler_spec_constants_logical:
  "scrambler logical_shift_right 0x369DEA0F31A53F85 0x25584FA4FF82E38B 0x422EB4BE0BE98727 1
     = 0x566B05A2C17E0F47"
  by (rule scrambler_steps [where ?y1.0 = 6626547347803874064
        and ?y2.0 = 6626549234632327833 and ?y3.0 = 5135907098556990105
        and ?y4.0 = 4841948832552704688 and ?y5.0 = 14189866358664143056
        and ?y6.0 = 4663177624006238416 and ?y7.0 = 4663177624004164519])
     (simp_all add: logical_shift_right_def shift_left_def)

lemma scrambler_spec_constants_arithmetic:
  "scrambler arithmetic_shift_right 0x369DEA0F31A53F85 0x25584FA4FF82E38B 0x422EB4BE0BE98727 1
     = 0x566B05A2C17E0F47"
  by (rule scrambler_steps [where ?y1.0 = 6626547347803874064
        and ?y2.0 = 6626549234632327833 and ?y3.0 = 5135907098556990105
        and ?y4.0 = 4841948832552704688 and ?y5.0 = 14189866358664143056
        and ?y6.0 = 4663177624006238416 and ?y7.0 = 4663177624004164519])
     (simp_all add: arithmetic_shift_right_def shift_left_def)

text \<open>The word operations of the code, read as unsigned integers.\<close>

lemma sint_64:
  "sint (w :: 64 word) = (if uint w < 2 ^ 63 then uint w else uint w - 2 ^ 64)"
proof -
  have lo: "0 \<le> uint w" and hi: "uint w < 2 ^ 64"
    using uint_lt2p [of w] by simp_all
  have s: "sint w = (uint w + 2 ^ 63) mod 2 ^ 64 - 2 ^ 63"
    by (simp add: sint_uint signed_take_bit_eq_take_bit_shift take_bit_eq_mod)
  show ?thesis
  proof (cases "uint w < 2 ^ 63")
    case True
    then have "(uint w + 2 ^ 63) mod 2 ^ 64 = uint w + 2 ^ 63"
      using lo by (intro mod_pos_pos_trivial) simp_all
    with True s show ?thesis by simp
  next
    case False
    have "(uint w + 2 ^ 63) mod 2 ^ 64 = (uint w + 2 ^ 63 - 2 ^ 64) mod 2 ^ 64"
      by (metis mod_diff_right_eq mod_self diff_zero)
    also have "\<dots> = uint w + 2 ^ 63 - 2 ^ 64"
      using False hi by (intro mod_pos_pos_trivial) simp_all
    finally show ?thesis using False s by simp
  qed
qed

lemma uint_signed_drop_bit_64:
  "uint (signed_drop_bit n (w :: 64 word)) = arithmetic_shift_right n (uint w)"
proof -
  have "uint (signed_drop_bit n w) = take_bit 64 (sint (signed_drop_bit n w))"
    by (simp add: uint_sint)
  also have "\<dots> = (sint w div 2 ^ n) mod 2 ^ 64"
    by (simp add: sint_signed_drop_bit_eq take_bit_eq_mod drop_bit_eq_div)
  finally show ?thesis
    by (simp only: arithmetic_shift_right_def sint_64)
qed

lemma uint_push_bit_64: "uint (push_bit n (w :: 64 word)) = shift_left n (uint w)"
proof -
  have "uint (push_bit n w) = take_bit LENGTH(64) (push_bit n (uint w))"
    by (rule unsigned_push_bit_eq)
  also have "\<dots> = (uint w * 2 ^ n) mod 2 ^ 64"
    by (simp only: take_bit_eq_mod push_bit_eq_mult) simp
  finally show ?thesis by (simp only: shift_left_def)
qed

lemma uint_mult_64: "uint ((a :: 64 word) * b) = (uint a * uint b) mod 2 ^ 64"
  by (simp add: uint_word_ariths)

lemma uint_add_64: "uint ((a :: 64 word) + b) = (uint a + uint b) mod 2 ^ 64"
  by (simp add: uint_word_ariths)

lemma uint_of_int_mult_64:
  "uint (word_of_int x :: 64 word) * c mod 2 ^ 64 = x * c mod 2 ^ 64"
  by (simp add: uint_word_of_int mod_mult_left_eq)

lemma uint_constant_1: "uint (3935559000370003845 :: 64 word) = 0x369DEA0F31A53F85"
  by simp

lemma uint_constant_2: "uint (2691343689449507681 :: 64 word) = 0x255992D382208B61"
  by simp

lemma uint_constant_3: "uint (4768777513237032717 :: 64 word) = 0x422E19E1D95D2F0D"
  by simp

text \<open>
  C3, as the claim states it, fails: with the constants \<open>0x25584FA4FF82E38B\<close> and
  \<open>0x422EB4BE0BE98727\<close> of the specification the scrambler differs from \<open>hash_function\<close>
  on the input 1, whether its right shifts are logical or arithmetic.
\<close>

theorem hash_function_spec_constants_counterexample:
  "uint (hash_function 1) \<noteq>
     scrambler logical_shift_right 0x369DEA0F31A53F85 0x25584FA4FF82E38B 0x422EB4BE0BE98727 1
   \<and> uint (hash_function 1) \<noteq>
     scrambler arithmetic_shift_right 0x369DEA0F31A53F85 0x25584FA4FF82E38B
       0x422EB4BE0BE98727 1"
  by (simp add: hash_function_1 scrambler_spec_constants_logical
      scrambler_spec_constants_arithmetic)

text \<open>
  C3, amended: for every integer input \<open>hash_function\<close> is the 64-bit scrambler with the
  multiplier \<open>0x369DEA0F31A53F85\<close>, the increment \<open>0x255992D382208B61\<close> (the code's
  2691343689449507681) and the second multiplier \<open>0x422E19E1D95D2F0D\<close> (the code's
  4768777513237032717), multiplications and additions modulo \<open>2 ^ 64\<close>, left shifts
  dropping the bits shifted out and right shifts propagating the sign bit of the 64-bit
  value; it is a function of its argument alone, and on the input 1 its value is
  \<open>0xBEA952A971BA8E83\<close>.
\<close>

theorem hash_function_scrambler:
  "uint (hash_function x) =
     scrambler arithmetic_shift_right 0x369DEA0F31A53F85 0x255992D382208B61
       0x422E19E1D95D2F0D x
   \<and> hash_function 1 = 0xBEA952A971BA8E83"
proof
  show "uint (hash_function x) =
     scrambler arithmetic_shift_right 0x369DEA0F31A53F85 0x255992D382208B61
       0x422E19E1D95D2F0D x"
    unfolding hash_function_def scrambler_def Let_def
    by (simp only: uint_xor uint_signed_drop_bit_64 uint_push_bit_64 uint_mult_64
        uint_add_64 uint_of_int_mult_64 uint_constant_1 uint_constant_2 uint_constant_3)
  show "hash_function 1 = 0xBEA952A971BA8E83"
    by (rule hash_function_1)
qed

section \<open>The encoder loop\<close>

text \<open>
  Partial correctness of the \<^verbatim>\<open>while\<close> loop: a property that holds where the loop stops,
  where a pass raises, and that a pass carries backwards, holds of every state from which
  the loop returns.
\<close>

lemma encode_loop_rule:
  assumes run: "encode_loop p binary_message strand_index mapping valid state = Some r"
    and stop: "\<And>state. \<not> snd (snd state) < length binary_message \<Longrightarrow> Q state (Inr (fst state))"
    and fail: "\<And>state e. snd (snd state) < length binary_message \<Longrightarrow>
                 encode_step p binary_message strand_index mapping valid state = Inl e \<Longrightarrow>
                 Q state (Inl e)"
    and step: "\<And>state state' r. snd (snd state) < length binary_message \<Longrightarrow>
                 encode_step p binary_message strand_index mapping valid state = Inr state' \<Longrightarrow>
                 Q state' r \<Longrightarrow> Q state r"
  shows "Q state r"
proof -
  have "p = p \<and> binary_message = binary_message \<and> strand_index = strand_index \<and>
        mapping = mapping \<and> valid = valid \<longrightarrow> Q state r"
  proof (rule encode_loop.raw_induct
      [where P = "\<lambda>p' bm' si' mp' vl' st r'.
         p' = p \<and> bm' = binary_message \<and> si' = strand_index \<and> mp' = mapping \<and> vl' = valid
         \<longrightarrow> Q st r'", OF _ run])
    fix f p' bm' si' mp' vl' st r'
    assume IH: "\<And>p' bm' si' mp' vl' st r'. f p' bm' si' mp' vl' st = Some r' \<Longrightarrow>
        p' = p \<and> bm' = binary_message \<and> si' = strand_index \<and> mp' = mapping \<and> vl' = valid
         \<longrightarrow> Q st r'"
      and body: "(if snd (snd st) < length bm'
          then case encode_step p' bm' si' mp' vl' st of
                 Inl e \<Rightarrow> Some (Inl e)
               | Inr state' \<Rightarrow> f p' bm' si' mp' vl' state'
          else Some (Inr (fst st))) = Some r'"
    show "p' = p \<and> bm' = binary_message \<and> si' = strand_index \<and> mp' = mapping \<and> vl' = valid
         \<longrightarrow> Q st r'"
    proof
      assume eq: "p' = p \<and> bm' = binary_message \<and> si' = strand_index \<and> mp' = mapping \<and> vl' = valid"
      show "Q st r'"
      proof (cases "snd (snd st) < length binary_message")
        case False
        with body eq have "r' = Inr (fst st)" by simp
        with stop [OF False] show ?thesis by simp
      next
        case True
        show ?thesis
        proof (cases "encode_step p binary_message strand_index mapping valid st")
          case (Inl e)
          with True body eq have "r' = Inl e" by simp
          with fail [OF True Inl] show ?thesis by simp
        next
          case (Inr state')
          with True body eq have "f p binary_message strand_index mapping valid state' = Some r'"
            by simp
          from IH [OF this] have "Q state' r'" by simp
          with True Inr show ?thesis by (rule step)
        qed
      qed
    qed
  qed
  then show ?thesis by simp
qed

lemma encode_loop_stop:
  "\<not> snd (snd state) < length binary_message \<Longrightarrow>
   encode_loop p binary_message strand_index mapping valid state = Some (Inr (fst state))"
  by (subst encode_loop.simps) simp

lemma encode_loop_step:
  "snd (snd state) < length binary_message \<Longrightarrow>
   encode_step p binary_message strand_index mapping valid state = Inr state' \<Longrightarrow>
   encode_loop p binary_message strand_index mapping valid state =
   encode_loop p binary_message strand_index mapping valid state'"
  by (subst encode_loop.simps) simp

text \<open>What one pass does to the state.\<close>

lemma encode_choice_Inr:
  assumes "encode_choice p binary_message strand_index av loc = Inr (n, loc')"
  shows "av \<noteq> [] \<and> n \<in> set av \<and> loc \<le> loc' \<and> loc' \<le> loc + 2"
proof -
  consider "length av = 1" | "length av = 2 \<or> length av = 3" | "length av = 0" | "4 \<le> length av"
    by linarith
  then show ?thesis
  proof cases
    case 1
    with assms show ?thesis
      by (cases av) (auto simp: encode_choice_def Let_def)
  next
    case 2
    then have "\<And>k. k mod 2 < length av" 
      by (metis less_le_trans mod_less_divisor numeral_2_eq_2 pos2 le_numeral_extra(4) less_Suc_eq_le Suc_le_eq numeral_3_eq_3 le_SucI)
    with 2 assms show ?thesis
      by (auto simp: encode_choice_def Let_def)
  next
    case 3
    with assms show ?thesis
      by (auto simp: encode_choice_def Let_def)
  next
    case 4
    then have "\<And>k. k mod 4 < length av"
      by (meson less_le_trans mod_less_divisor zero_less_numeral)
    with 4 assms show ?thesis
      by (auto simp: encode_choice_def Let_def split: if_splits)
  qed
qed

lemma encode_step_Inr:
  assumes "encode_step p binary_message strand_index mapping valid (S0, av, loc) = Inr (S', av', loc')"
  shows "\<exists>n. encode_choice p binary_message strand_index av loc = Inr (n, loc') \<and>
             S' = S0 @ [n] \<and> av' = collect_available mapping valid S' \<and> av' \<noteq> []"
  using assms
  by (auto simp: encode_step_def Let_def split: sum.splits if_splits prod.splits)

section \<open>A worked example\<close>

text \<open>
  The message 0, 1, 1 of strand 0 under an oracle that accepts everything: the first
  nucleotide carries two bits, the second the one bit that is left.
\<close>

lemma hash_function_2: "hash_function 2 = 0x51BE57F4A3C989B4"
  by (rule hash_function_steps [where ?y1.0 = 10562461690189515371
        and ?y2.0 = 7884283857562535232 and ?y3.0 = 12031984765161473344
        and ?y4.0 = 6671398140416445716 and ?y5.0 = 7441965886188262916
        and ?y6.0 = 12678303319015527940 and ?y7.0 = 5768440754691403572]) simp_all

lemma hash_value_4_0: "hash_value 4 0 0 0 = 3"
  by (simp add: hash_value_def hash_function_0)

lemma hash_value_4_2: "hash_value 4 2 0 0 = 0"
  by (simp add: hash_value_def hash_function_2)

lemma hash_value_4_Suc_Suc_0: "hash_value 4 (Suc (Suc 0)) 0 0 = 0"
  using hash_value_4_2 by (simp add: numeral_2_eq_2)

lemma encode_example:
  "encode [0, 1, 1] 0 ''ACGT'' (\<lambda>s. True) default_params = Some (Inr ''AC'')"
proof -
  have s1: "encode_step default_params [0, 1, 1] 0 ''ACGT'' (\<lambda>s. True) ([], ''ACGT'', 0)
            = Inr (''A'', ''ACGT'', 2)"
    by (simp add: encode_step_def encode_choice_def encode_previous_def collect_available_def
        default_params_def hash_value_4_0 Let_def)
  have s2: "encode_step default_params [0, 1, 1] 0 ''ACGT'' (\<lambda>s. True) (''A'', ''ACGT'', 2)
            = Inr (''AC'', ''ACGT'', 4)"
    by (simp add: encode_step_def encode_choice_def encode_previous_def collect_available_def
        default_params_def hash_value_4_2 Let_def)
  have "encode_loop default_params [0, 1, 1] 0 ''ACGT'' (\<lambda>s. True) ([], ''ACGT'', 0)
        = encode_loop default_params [0, 1, 1] 0 ''ACGT'' (\<lambda>s. True) (''A'', ''ACGT'', 2)"
    by (rule encode_loop_step [OF _ s1]) simp
  also have "\<dots> = encode_loop default_params [0, 1, 1] 0 ''ACGT'' (\<lambda>s. True) (''AC'', ''ACGT'', 4)"
    by (rule encode_loop_step [OF _ s2]) simp
  also have "\<dots> = Some (Inr ''AC'')"
    by (subst encode_loop_stop) simp_all
  finally show ?thesis by (simp only: encode_def)
qed

lemma decode_example:
  "decode ''AC'' 0 3 ''ACGT'' (\<lambda>s. True) default_params = Inr [0, 1, 1]"
  by (simp add: decode_def decode_bits_def decode_previous_def collect_available_def
        default_params_def hash_value_4_0 hash_value_4_Suc_Suc_0 Let_def)

section \<open>Length of the encoded string\<close>

lemma encode_loop_lower:
  assumes "encode_loop p binary_message strand_index mapping valid state = Some r"
  shows "\<forall>S. r = Inr S \<longrightarrow>
           length binary_message + 2 * length (fst state) \<le> snd (snd state) + 2 * length S"
  using assms
proof (rule encode_loop_rule)
  fix state :: "string \<times> char list \<times> nat"
  assume "\<not> snd (snd state) < length binary_message"
  then show "\<forall>S. Inr (fst state) = Inr S \<longrightarrow>
           length binary_message + 2 * length (fst state) \<le> snd (snd state) + 2 * length S"
    by auto
next
  fix state :: "string \<times> char list \<times> nat" and e :: error
  show "\<forall>S. Inl e = Inr S \<longrightarrow>
           length binary_message + 2 * length (fst state) \<le> snd (snd state) + 2 * length S"
    by simp
next
  fix state state' :: "string \<times> char list \<times> nat" and r :: "error + string"
  assume step: "encode_step p binary_message strand_index mapping valid state = Inr state'"
    and IH: "\<forall>S. r = Inr S \<longrightarrow>
           length binary_message + 2 * length (fst state') \<le> snd (snd state') + 2 * length S"
  obtain S0 av loc where state: "state = (S0, av, loc)" by (cases state)
  obtain S1 av1 loc1 where state': "state' = (S1, av1, loc1)" by (cases state')
  from step state state' obtain n where
    n: "encode_choice p binary_message strand_index av loc = Inr (n, loc1)" "S1 = S0 @ [n]"
    using encode_step_Inr by blast
  from encode_choice_Inr [OF n(1)] have "loc1 \<le> loc + 2" by simp
  with IH n(2) show "\<forall>S. r = Inr S \<longrightarrow>
           length binary_message + 2 * length (fst state) \<le> snd (snd state) + 2 * length S"
    by (auto simp: state state')
qed

lemma encode_choice_four:
  "length av = 4 \<Longrightarrow> encode_choice p binary_message strand_index av loc = Inr (n, loc') \<Longrightarrow>
   loc' = loc + 2"
  by (auto simp: encode_choice_def Let_def split: if_splits)

lemma encode_loop_upper:
  assumes "encode_loop p binary_message strand_index mapping valid state = Some r"
  shows "\<forall>S. r = Inr S \<longrightarrow> (\<exists>T. S = fst state @ T) \<and>
           ((length (fst state) < length S \<longrightarrow> length (fst (snd state)) = 4) \<and>
            (\<forall>i. length (fst state) < i \<and> i < length S \<longrightarrow>
                 length (collect_available mapping valid (take i S)) = 4) \<longrightarrow>
            2 * length S \<le> 2 * length (fst state) + (length binary_message - snd (snd state)) + 1)"
  using assms
proof (rule encode_loop_rule)
  fix state :: "string \<times> char list \<times> nat"
  show "\<forall>S. Inr (fst state) = Inr S \<longrightarrow> (\<exists>T. S = fst state @ T) \<and>
           ((length (fst state) < length S \<longrightarrow> length (fst (snd state)) = 4) \<and>
            (\<forall>i. length (fst state) < i \<and> i < length S \<longrightarrow>
                 length (collect_available mapping valid (take i S)) = 4) \<longrightarrow>
            2 * length S \<le> 2 * length (fst state) + (length binary_message - snd (snd state)) + 1)"
    by auto
next
  fix state :: "string \<times> char list \<times> nat" and e :: error
  show "\<forall>S. Inl e = Inr S \<longrightarrow> (\<exists>T. S = fst state @ T) \<and>
           ((length (fst state) < length S \<longrightarrow> length (fst (snd state)) = 4) \<and>
            (\<forall>i. length (fst state) < i \<and> i < length S \<longrightarrow>
                 length (collect_available mapping valid (take i S)) = 4) \<longrightarrow>
            2 * length S \<le> 2 * length (fst state) + (length binary_message - snd (snd state)) + 1)"
    by simp
next
  fix state state' :: "string \<times> char list \<times> nat" and r :: "error + string"
  assume inside: "snd (snd state) < length binary_message"
    and step: "encode_step p binary_message strand_index mapping valid state = Inr state'"
    and IH: "\<forall>S. r = Inr S \<longrightarrow> (\<exists>T. S = fst state' @ T) \<and>
           ((length (fst state') < length S \<longrightarrow> length (fst (snd state')) = 4) \<and>
            (\<forall>i. length (fst state') < i \<and> i < length S \<longrightarrow>
                 length (collect_available mapping valid (take i S)) = 4) \<longrightarrow>
            2 * length S \<le> 2 * length (fst state') + (length binary_message - snd (snd state')) + 1)"
  obtain S0 av loc where state: "state = (S0, av, loc)" by (cases state)
  obtain S1 av1 loc1 where state': "state' = (S1, av1, loc1)" by (cases state')
  from step state state' obtain n where
    n: "encode_choice p binary_message strand_index av loc = Inr (n, loc1)" "S1 = S0 @ [n]"
       "av1 = collect_available mapping valid S1"
    using encode_step_Inr by blast
  show "\<forall>S. r = Inr S \<longrightarrow> (\<exists>T. S = fst state @ T) \<and>
           ((length (fst state) < length S \<longrightarrow> length (fst (snd state)) = 4) \<and>
            (\<forall>i. length (fst state) < i \<and> i < length S \<longrightarrow>
                 length (collect_available mapping valid (take i S)) = 4) \<longrightarrow>
            2 * length S \<le> 2 * length (fst state) + (length binary_message - snd (snd state)) + 1)"
  proof (intro allI impI conjI)
    fix S assume r: "r = Inr S"
    with IH obtain T where T: "S = S1 @ T" by (auto simp: state')
    then show "\<exists>T. S = fst state @ T" by (simp add: state n(2))
    assume hyp: "(length (fst state) < length S \<longrightarrow> length (fst (snd state)) = 4) \<and>
            (\<forall>i. length (fst state) < i \<and> i < length S \<longrightarrow>
                 length (collect_available mapping valid (take i S)) = 4)"
    from T n(2) have longer: "length S0 < length S" by simp
    with hyp have four: "length av = 4" by (simp add: state)
    from encode_choice_four [OF four n(1)] have loc1: "loc1 = loc + 2" .
    have av1: "length S1 < length S \<longrightarrow> length av1 = 4"
    proof
      assume l: "length S1 < length S"
      have "take (length S1) S = S1" using T by simp
      moreover have "length S0 < length S1" using n(2) by simp
      ultimately show "length av1 = 4" using hyp l n(3) by (metis state fst_conv)
    qed
    have rest: "\<forall>i. length S1 < i \<and> i < length S \<longrightarrow>
                 length (collect_available mapping valid (take i S)) = 4"
      using hyp n(2) by (simp add: state)
    from IH r av1 rest
    have "2 * length S \<le> 2 * length S1 + (length binary_message - loc1) + 1"
      by (simp add: state')
    with loc1 n(2) inside
    show "2 * length S \<le> 2 * length (fst state) + (length binary_message - snd (snd state)) + 1"
      by (simp add: state) presburger
  qed
qed

text \<open>
  C9: when \<open>encode\<close> returns a string, the string has at least \<open>\<lceil>|bits| / 2\<rceil>\<close>
  nucleotides, and at most \<open>|bits|\<close> when the available list has four elements at every
  index of the string.
\<close>

theorem encode_length_bounds:
  assumes "encode binary_message strand_index mapping valid p = Some (Inr S)"
  shows "(length binary_message + 1) div 2 \<le> length S \<and>
         ((\<forall>i<length S. length (available_at mapping valid S i) = 4) \<longrightarrow>
          length S \<le> length binary_message)"
proof
  from assms encode_loop_lower [of p binary_message strand_index mapping valid "([], mapping, 0)"]
  have "length binary_message \<le> 2 * length S"
    by (simp add: encode_def)
  then show "(length binary_message + 1) div 2 \<le> length S" by linarith
  show "(\<forall>i<length S. length (available_at mapping valid S i) = 4) \<longrightarrow>
          length S \<le> length binary_message"
  proof
    assume all: "\<forall>i<length S. length (available_at mapping valid S i) = 4"
    then have first: "0 < length S \<longrightarrow> length mapping = 4"
      by (auto simp: available_at_def)
    from all have rest: "\<forall>i. 0 < i \<and> i < length S \<longrightarrow>
        length (collect_available mapping valid (take i S)) = 4"
      by (auto simp: available_at_def)
    from assms encode_loop_upper [of p binary_message strand_index mapping valid "([], mapping, 0)"]
      first rest
    have "2 * length S \<le> length binary_message + 1"
      by (simp add: encode_def)
    then show "length S \<le> length binary_message" by linarith
  qed
qed

theorem encode_length_bounds_witness:
  "encode [0, 1, 1] 0 ''ACGT'' (\<lambda>s. True) default_params = Some (Inr ''AC'') \<and>
   (length [0, 1, 1 :: nat] + 1) div 2 \<le> length ''AC'' \<and>
   length (available_at ''ACGT'' (\<lambda>s. True) ''AC'' 0) = 4 \<and>
   length (available_at ''ACGT'' (\<lambda>s. True) ''AC'' 1) = 4 \<and>
   length ''AC'' \<le> length [0, 1, 1 :: nat]"
proof -
  have four: "\<forall>i<length ''AC''. length (available_at ''ACGT'' (\<lambda>s. True) ''AC'' i) = 4"
    by (simp add: available_at_def collect_available_def)
  from encode_length_bounds [OF encode_example] four
  have "(length [0, 1, 1 :: nat] + 1) div 2 \<le> length ''AC'' \<and>
        length ''AC'' \<le> length [0, 1, 1 :: nat]"
    by blast
  with encode_example four show ?thesis by simp
qed

section \<open>Round trip\<close>

text \<open>
  The decoder undoes one pass of the encoder: on the nucleotide the encoder chose it appends
  the bits the encoder consumed, one bit only at a ragged tail.
\<close>

lemma mod4_shift_le:
  assumes "v \<le> b" "b < 4" "(h + v) mod 4 = (h + b) mod (4::nat)"
  shows "v = b"
proof (rule ccontr)
  assume "v \<noteq> b"
  with assms(1,2) have d: "0 < b - v" "b - v < 4" by simp_all
  have "h + v \<le> h + b" using assms(1) by simp
  from mod_eq_dvd_iff_nat [OF this, of 4] assms(3) have "4 dvd (h + b) - (h + v)"
    by simp
  then have "4 dvd b - v" by simp
  with d show False using nat_dvd_not_less by blast
qed

lemma mod4_shift: "v < 4 \<Longrightarrow> b < 4 \<Longrightarrow> ((h + v) mod 4 = (h + b) mod 4) = (v = (b::nat))"
  using mod4_shift_le [of v b h] mod4_shift_le [of b v h]
  by (cases "v \<le> b") auto


lemma find_bit_value:
  assumes "distinct av" "4 \<le> length av" "b < 4"
  shows "find (\<lambda>v. av ! ((h + v) mod 4) = av ! ((h + b) mod 4)) [0, 1, 2, 3] = Some b"
proof -
  have bound: "(h + v) mod 4 < length av" for v
  proof -
    have "(h + v) mod 4 < 4" by simp
    then show ?thesis using assms(2) by (rule less_le_trans)
  qed
  have eq: "(av ! ((h + v) mod 4) = av ! ((h + b) mod 4)) = (v = b)" if "v < 4" for v
    using assms(1) bound that assms(3) by (simp add: nth_eq_iff_index_eq mod4_shift)
  have "b = 0 \<or> b = 1 \<or> b = 2 \<or> b = 3" using assms(3) by linarith
  then show ?thesis
  proof (elim disjE)
    assume "b = 0" then show ?thesis using eq [of 0] by simp
  next
    assume b: "b = 1" then show ?thesis using eq [of 0] eq [of 1] by simp
  next
    assume b: "b = 2" then show ?thesis using eq [of 0] eq [of 1] eq [of 2] by simp
  next
    assume b: "b = 3" then show ?thesis using eq [of 0] eq [of 1] eq [of 2] eq [of 3] by simp
  qed
qed


lemma decode_previous_take:
  "loc \<le> length bits \<Longrightarrow> decode_previous p (take loc bits) = encode_previous p bits loc"
  by (simp add: decode_previous_def encode_previous_def drop_take min_def)

lemma decode_bits_encode_choice:
  assumes dist: "distinct av" and bits: "set bits \<subseteq> {0, 1}" and loc: "loc < length bits"
    and enc: "encode_choice p bits strand_index av loc = Inr (n, loc')"
  shows "decode_bits p strand_index (length bits) av (take loc bits) n = Inr (take loc' bits)"
proof -
  have len: "min (length bits) loc = loc" using loc by simp
  have prev: "decode_previous p (take loc bits) = encode_previous p bits loc"
    using loc by (simp add: decode_previous_take)
  have b0: "bits ! loc = 0 \<or> bits ! loc = 1" using bits loc nth_mem by blast
  have next_bit: "take (Suc loc) bits = take loc bits @ [bits ! loc]"
    using loc by (simp add: take_Suc_conv_app_nth)
  consider "length av = 1" | "length av = 2 \<or> length av = 3" | "length av = 0" | "4 \<le> length av"
    by linarith
  then show ?thesis
  proof cases
    case 1
    with enc show ?thesis by (auto simp: encode_choice_def decode_bits_def Let_def)
  next
    case 2
    define h where "h = hash_value 2 (loc mod 2 ^ low_order_number p) (encode_previous p bits loc)
                          (strand_index mod 2 ^ salt_number p)"
    have n: "n = av ! ((h + bits ! loc) mod 2)" and loc': "loc' = loc + 1"
      using enc 2 by (auto simp: encode_choice_def Let_def h_def)
    have bound: "k mod 2 < length av" for k :: nat
    proof -
      have "k mod 2 < 2" by simp
      moreover have "2 \<le> length av" using 2 by auto
      ultimately show ?thesis by (rule less_le_trans)
    qed
    have "av ! ((h + 1) mod 2) \<noteq> av ! (h mod 2)"
    proof -
      have "(h + 1) mod 2 \<noteq> h mod 2" by (simp add: mod_Suc)
      then show ?thesis using dist bound by (simp add: nth_eq_iff_index_eq)
    qed
    with b0 have "decode_bits p strand_index (length bits) av (take loc bits) n
                  = Inr (take loc bits @ [bits ! loc])"
      using 2 by (auto simp: decode_bits_def Let_def len prev n h_def [symmetric])
    then show ?thesis by (simp add: loc' next_bit)
  next
    case 3
    with enc show ?thesis by (auto simp: encode_choice_def Let_def)
  next
    case 4
    define h where "h = hash_value 4 (loc mod 2 ^ low_order_number p) (encode_previous p bits loc)
                          (strand_index mod 2 ^ salt_number p)"
    from 4 have ne: "av \<noteq> []" by auto
    have loc': "loc' = loc + 2"
      using enc 4 ne by (auto simp: encode_choice_def Let_def)
    show ?thesis
    proof (cases "loc + 2 \<le> length bits")
      case True
      have b1: "bits ! (loc + 1) = 0 \<or> bits ! (loc + 1) = 1"
      proof -
        have "loc + 1 < length bits" using True by simp
        then have "bits ! (loc + 1) \<in> set bits" by (rule nth_mem)
        with bits show ?thesis by auto
      qed
      define b where "b = bits ! loc * 2 + bits ! (loc + 1)"
      have b4: "b < 4" using b0 b1 by (auto simp: b_def)
      have n: "n = av ! ((h + b) mod 4)"
        using enc 4 ne True by (auto simp: encode_choice_def Let_def h_def b_def)
      have bd: "b div 2 = bits ! loc" "b mod 2 = bits ! (loc + 1)"
        using b0 b1 by (auto simp: b_def)
      have two: "take (Suc (Suc loc)) bits = take loc bits @ [bits ! loc, bits ! Suc loc]"
        using True by (simp add: take_Suc_conv_app_nth)
      have fnd: "find (\<lambda>bit_value. av ! ((h + bit_value) mod 4) = n) [0, Suc 0, 2, 3] = Some b"
        using find_bit_value [OF dist 4 b4, of h] by (simp only: n One_nat_def)
      have "decode_bits p strand_index (length bits) av (take loc bits) n
            = Inr (take loc bits @ [b div 2, b mod 2])"
        using 4 ne True
        by (simp add: decode_bits_def Let_def len prev h_def [symmetric] fnd del: find.simps)
      then show ?thesis by (simp add: loc' two bd)
    next
      case False
      define b where "b = bits ! loc"
      have b4: "b < 4" using b0 by (auto simp: b_def)
      have n: "n = av ! ((h + b) mod 4)"
        using enc 4 ne False by (auto simp: encode_choice_def Let_def h_def b_def)
      have bd: "b mod 2 = bits ! loc" using b0 by (auto simp: b_def)
      have all: "take (Suc (Suc loc)) bits = take loc bits @ [bits ! loc]"
        using False loc next_bit by simp
      have fnd: "find (\<lambda>bit_value. av ! ((h + bit_value) mod 4) = n) [0, Suc 0, 2, 3] = Some b"
        using find_bit_value [OF dist 4 b4, of h] by (simp only: n One_nat_def)
      have "decode_bits p strand_index (length bits) av (take loc bits) n
            = Inr (take loc bits @ [b mod 2])"
        using 4 ne False
        by (simp add: decode_bits_def Let_def len prev h_def [symmetric] fnd del: find.simps)
      then show ?thesis by (simp add: loc' all bd)
    qed
  qed
qed



lemma encode_loop_decode_loop:
  assumes dist: "distinct mapping" and bits: "set bits \<subseteq> {0, 1}"
    and run: "encode_loop p bits strand_index mapping valid state = Some r"
  shows "distinct (fst (snd state)) \<longrightarrow>
         (\<forall>S. r = Inr S \<longrightarrow>
           (\<exists>T. S = fst state @ T \<and>
                decode_loop p strand_index (length bits) mapping valid (fst state) T
                  (take (snd (snd state)) bits) (fst (snd state)) = Inr bits))"
  using run
proof (rule encode_loop_rule)
  fix state :: "string \<times> char list \<times> nat"
  assume "\<not> snd (snd state) < length bits"
  then show "distinct (fst (snd state)) \<longrightarrow>
         (\<forall>S. Inr (fst state) = Inr S \<longrightarrow>
           (\<exists>T. S = fst state @ T \<and>
                decode_loop p strand_index (length bits) mapping valid (fst state) T
                  (take (snd (snd state)) bits) (fst (snd state)) = Inr bits))"
    by simp
next
  fix state :: "string \<times> char list \<times> nat" and e :: error
  show "distinct (fst (snd state)) \<longrightarrow>
         (\<forall>S. Inl e = Inr S \<longrightarrow>
           (\<exists>T. S = fst state @ T \<and>
                decode_loop p strand_index (length bits) mapping valid (fst state) T
                  (take (snd (snd state)) bits) (fst (snd state)) = Inr bits))"
    by simp
next
  fix state state' :: "string \<times> char list \<times> nat" and r :: "error + string"
  assume inside: "snd (snd state) < length bits"
    and step: "encode_step p bits strand_index mapping valid state = Inr state'"
    and IH: "distinct (fst (snd state')) \<longrightarrow>
         (\<forall>S. r = Inr S \<longrightarrow>
           (\<exists>T. S = fst state' @ T \<and>
                decode_loop p strand_index (length bits) mapping valid (fst state') T
                  (take (snd (snd state')) bits) (fst (snd state')) = Inr bits))"
  obtain S0 av loc where state: "state = (S0, av, loc)" by (cases state)
  obtain S1 av1 loc1 where state': "state' = (S1, av1, loc1)" by (cases state')
  from step state state' obtain n where
    n: "encode_choice p bits strand_index av loc = Inr (n, loc1)" "S1 = S0 @ [n]"
       "av1 = collect_available mapping valid S1" "av1 \<noteq> []"
    using encode_step_Inr by blast
  have dist1: "distinct av1" using dist n(3) by (simp add: collect_available_def)
  show "distinct (fst (snd state)) \<longrightarrow>
         (\<forall>S. r = Inr S \<longrightarrow>
           (\<exists>T. S = fst state @ T \<and>
                decode_loop p strand_index (length bits) mapping valid (fst state) T
                  (take (snd (snd state)) bits) (fst (snd state)) = Inr bits))"
  proof (intro impI allI)
    fix S assume dav: "distinct (fst (snd state))" and r: "r = Inr S"
    from IH dist1 r obtain T where
      T: "S = S1 @ T"
         "decode_loop p strand_index (length bits) mapping valid S1 T (take loc1 bits) av1
          = Inr bits"
      by (auto simp: state')
    have bits_n: "decode_bits p strand_index (length bits) av (take loc bits) n
                  = Inr (take loc1 bits)"
      using decode_bits_encode_choice [OF _ bits _ n(1)] dav inside by (simp add: state)
    have "decode_loop p strand_index (length bits) mapping valid S0 (n # T) (take loc bits) av
          = Inr bits"
      using bits_n n(2,3,4) T(2) by (simp add: Let_def)
    with T(1) n(2) show "\<exists>T. S = fst state @ T \<and>
                decode_loop p strand_index (length bits) mapping valid (fst state) T
                  (take (snd (snd state)) bits) (fst (snd state)) = Inr bits"
      by (auto simp: state)
  qed
qed

text \<open>
  C1: for a mapping without repetitions and a message of bits, whenever \<open>encode\<close> returns
  a string, \<open>decode\<close> of that string with the same strand index, mapping, oracle and
  parameters and with the length of the message returns the message, bit for bit; the case
  where the last nucleotide carries a single bit is included.
\<close>

theorem round_trip:
  assumes "distinct mapping" and "set bits \<subseteq> {0, 1}"
    and "encode bits strand_index mapping valid p = Some (Inr S)"
  shows "decode S strand_index (length bits) mapping valid p = Inr bits"
proof -
  from assms(3) have "encode_loop p bits strand_index mapping valid ([], mapping, 0) = Some (Inr S)"
    by (simp add: encode_def)
  from encode_loop_decode_loop [OF assms(1,2) this] assms(1)
  have "decode_loop p strand_index (length bits) mapping valid [] S [] mapping = Inr bits"
    by simp
  then show ?thesis by (simp add: decode_def)
qed

theorem round_trip_witness:
  "distinct ''ACGT'' \<and> set [0, 1, 1 :: nat] \<subseteq> {0, 1} \<and>
   encode [0, 1, 1] 0 ''ACGT'' (\<lambda>s. True) default_params = Some (Inr ''AC'') \<and>
   decode ''AC'' 0 (length [0, 1, 1 :: nat]) ''ACGT'' (\<lambda>s. True) default_params
     = Inr [0, 1, 1]"
proof -
  have d: "distinct ''ACGT''" by simp
  have b: "set [0, 1, 1 :: nat] \<subseteq> {0, 1}" by simp
  from round_trip [OF d b encode_example] d b encode_example show ?thesis by simp
qed

section \<open>Failure of the decoder\<close>

lemma decode_bits_Inr:
  "av \<noteq> [] \<Longrightarrow> \<exists>m. decode_bits p strand_index bit_length av msg n = Inr m"
  by (simp add: decode_bits_def Let_def split: option.split)

lemma decode_loop_result:
  "av \<noteq> [] \<Longrightarrow>
   (if \<exists>i<length T. collect_available mapping valid (S0 @ take (Suc i) T) = []
    then decode_loop p strand_index bit_length mapping valid S0 T msg av
           = Inl (ContainsErrors strand_index)
    else \<exists>bits. decode_loop p strand_index bit_length mapping valid S0 T msg av = Inr bits)"
proof (induction T arbitrary: S0 msg av)
  case Nil
  then show ?case by simp
next
  case (Cons n T)
  from decode_bits_Inr [OF Cons.prems] obtain m where
    m: "decode_bits p strand_index bit_length av msg n = Inr m" by blast
  show ?case
  proof (cases "collect_available mapping valid (S0 @ [n]) = []")
    case True
    then have "\<exists>i<length (n # T). collect_available mapping valid (S0 @ take (Suc i) (n # T)) = []"
      by (intro exI [of _ 0]) simp
    moreover have "decode_loop p strand_index bit_length mapping valid S0 (n # T) msg av
           = Inl (ContainsErrors strand_index)"
      using m True by simp
    ultimately show ?thesis by simp
  next
    case False
    have ex: "(\<exists>i<length (n # T). collect_available mapping valid (S0 @ take (Suc i) (n # T)) = [])
          = (\<exists>i<length T. collect_available mapping valid ((S0 @ [n]) @ take (Suc i) T) = [])"
      using False by (simp add: Ex_less_Suc2)
    have step: "decode_loop p strand_index bit_length mapping valid S0 (n # T) msg av
          = decode_loop p strand_index bit_length mapping valid (S0 @ [n]) T m
              (collect_available mapping valid (S0 @ [n]))"
      using m False by (simp add: Let_def)
    from Cons.IH [OF False, of "S0 @ [n]" m] show ?thesis
      unfolding ex step .
  qed
qed

lemma decode_after_last:
  "decode ''G'' 0 2 ''ACGT'' nothing_after_G default_params = Inl (ContainsErrors 0)"
  by (simp add: decode_def decode_bits_def decode_previous_def collect_available_def
        default_params_def hash_value_4_0 Let_def nothing_after_G_def)

text \<open>
  C7, as the claim states it, fails: the string G has one nucleotide, so that no position is
  intermediate, and under an oracle that lets nothing follow G the check made after this
  last nucleotide raises the error.
\<close>

theorem decode_after_last_counterexample:
  "length ''G'' = 1 \<and>
   decode ''G'' 0 2 ''ACGT'' nothing_after_G default_params = Inl (ContainsErrors 0)"
  by (simp add: decode_after_last)

text \<open>
  C7, amended: for a non-empty mapping, \<open>decode\<close> fails with the constraint error, which
  carries the strand index, exactly when the available list collected after some
  nucleotide of the string, the last one included, is empty; on every other input it
  returns normally.
\<close>

theorem decode_fails_iff:
  assumes "mapping \<noteq> []"
  shows "if \<exists>i<length S. collect_available mapping valid (take (Suc i) S) = []
         then decode S strand_index bit_length mapping valid p = Inl (ContainsErrors strand_index)
         else \<exists>bits. decode S strand_index bit_length mapping valid p = Inr bits"
  using decode_loop_result [OF assms, of S mapping valid "[]" p strand_index bit_length "[]"]
  by (auto simp: decode_def split: if_splits)

theorem decode_fails_iff_witness:
  "''ACGT'' \<noteq> [] \<and>
   (\<exists>bits. decode ''AC'' 0 3 ''ACGT'' (\<lambda>s. True) default_params = Inr bits) \<and>
   decode ''G'' 0 2 ''ACGT'' nothing_after_G default_params = Inl (ContainsErrors 0)"
proof -
  have m: "''ACGT'' \<noteq> []" by simp
  have no: "\<not> (\<exists>i<length ''AC''.
      collect_available ''ACGT'' (\<lambda>s. True) (take (Suc i) ''AC'') = [])"
    by (simp add: collect_available_def)
  have yes: "\<exists>i<length ''G''.
      collect_available ''ACGT'' nothing_after_G (take (Suc i) ''G'') = []"
    by (simp add: collect_available_def nothing_after_G_def)
  from decode_fails_iff [OF m, where S = "''AC''" and valid = "\<lambda>s. True"
      and strand_index = 0 and bit_length = 3 and p = default_params] no
  have a: "\<exists>bits. decode ''AC'' 0 3 ''ACGT'' (\<lambda>s. True) default_params = Inr bits"
    by simp
  from decode_fails_iff [OF m, where S = "''G''" and valid = nothing_after_G
      and strand_index = 0 and bit_length = 2 and p = default_params] yes
  have b: "decode ''G'' 0 2 ''ACGT'' nothing_after_G default_params
           = Inl (ContainsErrors 0)"
    by simp
  from m a b show ?thesis by simp
qed

section \<open>The children of a repair vertex\<close>

lemma product01_length: "m \<in> set (product01 w) \<Longrightarrow> length m = w"
  by (induction w arbitrary: m) auto

lemma floor_log2_1: "floor_log2 k = 1 \<Longrightarrow> 2 \<le> k"
  by (subst (asm) floor_log2.simps) (simp split: if_splits)

lemma floor_log2_2: "floor_log2 k = 2 \<Longrightarrow> 4 \<le> k"
proof -
  assume a: "floor_log2 k = 2"
  then have "\<not> k < 2" and "floor_log2 (k div 2) = 1"
    by (subst (asm) floor_log2.simps, simp split: if_splits)+
  from floor_log2_1 [OF this(2)] show ?thesis by simp
qed

lemma match_children_child:
  assumes "(c, s, i) \<in> set (match_children p pen av self salt j cur bit_idx n)"
  shows "string c = string self @ [n] \<and>
         (s = cur + correct_penalty pen \<or> s = cur + mutate_penalty pen) \<and> i = j + 1"
  using assms by (auto simp: match_children_def match_child_def Let_def split: if_splits)

lemma insert_children_child:
  assumes "(c, s, i) \<in> set (insert_children p pen av self salt j cur bit_idx n)"
  shows "string c = string self @ [n] \<and> s = cur + insert_penalty pen \<and> i = j + 2"
  using assms
  by (auto simp: insert_children_def insert_child_def Let_def split: if_splits option.splits)

lemma delete_child_child:
  assumes "(c, s, i) \<in> set (delete_child p pen av self salt j cur bit_idx m)"
    and len: "length m = floor_log2 (length av)"
  shows "(\<exists>n\<in>set av. string c = string self @ [n]) \<and> s = cur + delete_penalty pen \<and> i = j"
proof (cases "length m = 1")
  case True
  with len floor_log2_1 have "2 \<le> length av" by simp
  then have "av ! (k mod 2) \<in> set av" for k
    by (intro nth_mem) (meson less_le_trans mod_less_divisor pos2)
  with assms(1) True show ?thesis by (auto simp: delete_child_def Let_def)
next
  case False
  show ?thesis
  proof (cases "length m = 2")
    case True
    with len floor_log2_2 have "4 \<le> length av" by simp
    then have "av ! (k mod 4) \<in> set av" for k
      by (intro nth_mem) (meson less_le_trans mod_less_divisor zero_less_numeral)
    with assms(1) True show ?thesis by (auto simp: delete_child_def Let_def)
  next
    case False
    with assms(1) \<open>length m \<noteq> 1\<close> show ?thesis by (auto simp: delete_child_def)
  qed
qed

lemma delete_children_child:
  assumes "(c, s, i) \<in> set (delete_children p pen av self salt j cur bit_idx)"
  shows "(\<exists>n\<in>set av. string c = string self @ [n]) \<and> s = cur + delete_penalty pen \<and> i = j"
proof -
  from assms obtain m where "m \<in> set (product01 (floor_log2 (length av)))"
    and "(c, s, i) \<in> set (delete_child p pen av self salt j cur bit_idx m)"
    by (auto simp: delete_children_def)
  with product01_length show ?thesis by (intro delete_child_child) auto
qed

lemma next_child:
  assumes "(c, s, i) \<in> set (InfoVertex_next p pen dna_string mapping valid self salt j cur)"
  shows "(\<exists>n. string c = string self @ [n] \<and> valid (string self @ [n])) \<and>
         ((s = cur + correct_penalty pen \<or> s = cur + mutate_penalty pen) \<and> i = j + 1
          \<or> s = cur + insert_penalty pen \<and> i = j + 2
          \<or> s = cur + delete_penalty pen \<and> i = j)"
proof -
  define av where "av = collect_available mapping valid (string self)"
  have av: "n \<in> set av \<Longrightarrow> valid (string self @ [n])" for n
    by (simp add: av_def collect_available_def)
  from assms consider
      (match) "dna_string ! j \<in> set av"
        "(c, s, i) \<in> set (match_children p pen av self salt j cur
             (bit_index self mod 2 ^ low_order_number p) (dna_string ! j))"
    | (ins) "dna_string ! (j + 1) \<in> set av"
        "(c, s, i) \<in> set (insert_children p pen av self salt j cur
             (bit_index self mod 2 ^ low_order_number p) (dna_string ! (j + 1)))"
    | (del) "(c, s, i) \<in> set (delete_children p pen av self salt j cur
             (bit_index self mod 2 ^ low_order_number p))"
    by (auto simp: InfoVertex_next_def Let_def av_def split: if_splits)
  then show ?thesis
  proof cases
    case match
    with match_children_child [OF match(2)] av show ?thesis by blast
  next
    case ins
    with insert_children_child [OF ins(2)] av show ?thesis by blast
  next
    case del
    with delete_children_child [OF del] av show ?thesis by blast
  qed
qed

section \<open>Prefixes of the encoded string\<close>

lemma encode_loop_valid:
  assumes "encode_loop p bits strand_index mapping valid state = Some r"
  shows "\<forall>S. r = Inr S \<longrightarrow> (\<exists>T. S = fst state @ T) \<and>
           (\<forall>n. length (fst state) + 1 < n \<and> n \<le> length S \<longrightarrow> valid (take n S)) \<and>
           ((\<forall>c\<in>set (fst (snd state)). valid (fst state @ [c])) \<longrightarrow>
            (\<forall>n. length (fst state) < n \<and> n \<le> length S \<longrightarrow> valid (take n S)))"
  using assms
proof (rule encode_loop_rule)
  fix state :: "string \<times> char list \<times> nat"
  show "\<forall>S. Inr (fst state) = Inr S \<longrightarrow> (\<exists>T. S = fst state @ T) \<and>
           (\<forall>n. length (fst state) + 1 < n \<and> n \<le> length S \<longrightarrow> valid (take n S)) \<and>
           ((\<forall>c\<in>set (fst (snd state)). valid (fst state @ [c])) \<longrightarrow>
            (\<forall>n. length (fst state) < n \<and> n \<le> length S \<longrightarrow> valid (take n S)))"
    by auto
next
  fix state :: "string \<times> char list \<times> nat" and e :: error
  show "\<forall>S. Inl e = Inr S \<longrightarrow> (\<exists>T. S = fst state @ T) \<and>
           (\<forall>n. length (fst state) + 1 < n \<and> n \<le> length S \<longrightarrow> valid (take n S)) \<and>
           ((\<forall>c\<in>set (fst (snd state)). valid (fst state @ [c])) \<longrightarrow>
            (\<forall>n. length (fst state) < n \<and> n \<le> length S \<longrightarrow> valid (take n S)))"
    by simp
next
  fix state state' :: "string \<times> char list \<times> nat" and r :: "error + string"
  assume step: "encode_step p bits strand_index mapping valid state = Inr state'"
    and IH: "\<forall>S. r = Inr S \<longrightarrow> (\<exists>T. S = fst state' @ T) \<and>
           (\<forall>n. length (fst state') + 1 < n \<and> n \<le> length S \<longrightarrow> valid (take n S)) \<and>
           ((\<forall>c\<in>set (fst (snd state')). valid (fst state' @ [c])) \<longrightarrow>
            (\<forall>n. length (fst state') < n \<and> n \<le> length S \<longrightarrow> valid (take n S)))"
  obtain S0 av loc where state: "state = (S0, av, loc)" by (cases state)
  obtain S1 av1 loc1 where state': "state' = (S1, av1, loc1)" by (cases state')
  from step state state' obtain x where
    x: "encode_choice p bits strand_index av loc = Inr (x, loc1)" "S1 = S0 @ [x]"
       "av1 = collect_available mapping valid S1"
    using encode_step_Inr by blast
  from encode_choice_Inr [OF x(1)] have xav: "x \<in> set av" by simp
  have av1: "\<forall>c\<in>set av1. valid (S1 @ [c])" by (simp add: x(3) collect_available_def)
  show "\<forall>S. r = Inr S \<longrightarrow> (\<exists>T. S = fst state @ T) \<and>
           (\<forall>n. length (fst state) + 1 < n \<and> n \<le> length S \<longrightarrow> valid (take n S)) \<and>
           ((\<forall>c\<in>set (fst (snd state)). valid (fst state @ [c])) \<longrightarrow>
            (\<forall>n. length (fst state) < n \<and> n \<le> length S \<longrightarrow> valid (take n S)))"
  proof (intro allI impI)
    fix S assume r: "r = Inr S"
    with IH av1 obtain T where T: "S = S1 @ T"
      and later: "\<forall>n. length S1 < n \<and> n \<le> length S \<longrightarrow> valid (take n S)"
      by (auto simp: state')
    have first: "take (length S0 + 1) S = S0 @ [x]" using T x(2) by simp
    have a: "\<exists>T. S = fst state @ T" using T x(2) by (simp add: state)
    have b: "\<forall>n. length (fst state) + 1 < n \<and> n \<le> length S \<longrightarrow> valid (take n S)"
      using later x(2) by (simp add: state)
    have c: "(\<forall>c\<in>set (fst (snd state)). valid (fst state @ [c])) \<longrightarrow>
            (\<forall>n. length (fst state) < n \<and> n \<le> length S \<longrightarrow> valid (take n S))"
    proof (intro impI allI)
      fix n
      assume ok: "\<forall>c\<in>set (fst (snd state)). valid (fst state @ [c])"
        and n: "length (fst state) < n \<and> n \<le> length S"
      show "valid (take n S)"
      proof (cases "n = length S0 + 1")
        case True
        with ok xav first show ?thesis by (simp add: state)
      next
        case False
        with n have "length S1 < n \<and> n \<le> length S" by (simp add: state x(2))
        with later show ?thesis by blast
      qed
    qed
    from a b c show "(\<exists>T. S = fst state @ T) \<and>
           (\<forall>n. length (fst state) + 1 < n \<and> n \<le> length S \<longrightarrow> valid (take n S)) \<and>
           ((\<forall>c\<in>set (fst (snd state)). valid (fst state @ [c])) \<longrightarrow>
            (\<forall>n. length (fst state) < n \<and> n \<le> length S \<longrightarrow> valid (take n S)))"
      by blast
  qed
qed

section \<open>Further worked examples\<close>

lemma encode_first_A:
  "encode [0, 1] 0 ''ACGT'' A_forbidden default_params = Some (Inr ''A'')"
proof -
  have s1: "encode_step default_params [0, 1] 0 ''ACGT'' A_forbidden ([], ''ACGT'', 0)
            = Inr (''A'', ''CGT'', 2)"
    by (simp add: encode_step_def encode_choice_def encode_previous_def collect_available_def
        default_params_def hash_value_4_0 Let_def A_forbidden_def)
  have "encode_loop default_params [0, 1] 0 ''ACGT'' A_forbidden ([], ''ACGT'', 0)
        = encode_loop default_params [0, 1] 0 ''ACGT'' A_forbidden (''A'', ''CGT'', 2)"
    by (rule encode_loop_step [OF _ s1]) simp
  also have "\<dots> = Some (Inr ''A'')"
    by (subst encode_loop_stop) simp_all
  finally show ?thesis by (simp only: encode_def)
qed

lemma floor_log2_4: "floor_log2 4 = 2"
  by (simp add: floor_log2.simps)

lemma floor_log2_Suc_4: "floor_log2 (Suc (Suc (Suc (Suc 0)))) = 2"
  using floor_log2_4 by (simp add: eval_nat_numeral)

lemma product01_2: "product01 2 = [[0, 0], [0, 1], [1, 0], [1, 1]]"
  by (simp add: numeral_2_eq_2)

lemma next_root_T:
  "InfoVertex_next default_params default_penalties ''T'' ''ACGT'' (\<lambda>s. True)
     \<lparr>previous_value = 0, bit_index = 0, string = []\<rparr> 0 0 0 =
   [(\<lparr>previous_value = 0, bit_index = 2, string = ''T''\<rparr>,
     - (1261007895663739 / 36028797018963968), 1),
    (\<lparr>previous_value = 1, bit_index = 2, string = ''T''\<rparr>, 1, 1),
    (\<lparr>previous_value = 2, bit_index = 2, string = ''T''\<rparr>, 1, 1),
    (\<lparr>previous_value = 3, bit_index = 2, string = ''T''\<rparr>, 1, 1),
    (\<lparr>previous_value = 0, bit_index = 2, string = ''T''\<rparr>, 1, 0),
    (\<lparr>previous_value = 1, bit_index = 2, string = ''T''\<rparr>, 1, 0),
    (\<lparr>previous_value = 2, bit_index = 2, string = ''A''\<rparr>, 1, 0),
    (\<lparr>previous_value = 3, bit_index = 2, string = ''A''\<rparr>, 1, 0)]"
  by (simp add: InfoVertex_next_def match_children_def match_child_def delete_children_def
      delete_child_def collect_available_def default_params_def default_penalties_def
      floor_log2_Suc_4 product01_2 hash_value_4_0 Let_def)

section \<open>Constraint safety\<close>

lemma encode_example_G:
  "encode [0, 1, 1] 0 ''ACGT'' nothing_after_G default_params = Some (Inr ''AC'')"
proof -
  have s1: "encode_step default_params [0, 1, 1] 0 ''ACGT'' nothing_after_G ([], ''ACGT'', 0)
            = Inr (''A'', ''ACGT'', 2)"
    by (simp add: encode_step_def encode_choice_def encode_previous_def collect_available_def
        default_params_def hash_value_4_0 Let_def nothing_after_G_def)
  have s2: "encode_step default_params [0, 1, 1] 0 ''ACGT'' nothing_after_G (''A'', ''ACGT'', 2)
            = Inr (''AC'', ''ACGT'', 4)"
    by (simp add: encode_step_def encode_choice_def encode_previous_def collect_available_def
        default_params_def hash_value_4_2 Let_def nothing_after_G_def)
  have "encode_loop default_params [0, 1, 1] 0 ''ACGT'' nothing_after_G ([], ''ACGT'', 0)
        = encode_loop default_params [0, 1, 1] 0 ''ACGT'' nothing_after_G (''A'', ''ACGT'', 2)"
    by (rule encode_loop_step [OF _ s1]) simp
  also have "\<dots> = encode_loop default_params [0, 1, 1] 0 ''ACGT'' nothing_after_G
                      (''AC'', ''ACGT'', 4)"
    by (rule encode_loop_step [OF _ s2]) simp
  also have "\<dots> = Some (Inr ''AC'')"
    by (subst encode_loop_stop) simp_all
  finally show ?thesis by (simp only: encode_def)
qed

text \<open>
  C2, as the claim states it, fails for the first nucleotide: under the oracle that forbids
  A the encoder returns the string A for the message 0, 1 of strand 0, and the oracle
  rejects that prefix.
\<close>

theorem first_nucleotide_counterexample:
  "encode [0, 1] 0 ''ACGT'' A_forbidden default_params = Some (Inr ''A'') \<and>
   \<not> A_forbidden (take 1 ''A'')"
proof
  show "encode [0, 1] 0 ''ACGT'' A_forbidden default_params = Some (Inr ''A'')"
    by (rule encode_first_A)
  show "\<not> A_forbidden (take 1 ''A'')"
    by (simp add: A_forbidden_def)
qed

text \<open>
  C2, amended: every nucleotide that \<open>encode\<close> appends after the first one gives a prefix
  that the oracle accepts, and so does the first one when the oracle accepts every
  one-nucleotide string over the mapping (it is taken from the whole mapping, before any
  oracle query); every nucleotide that repair appends to a vertex string gives a string that
  the oracle accepts; and a pass of the encoder that finds the available list empty, before
  or after its emission, fails instead of going on.
\<close>

theorem constraint_safety:
  "(encode bits strand_index mapping valid p = Some (Inr S) \<longrightarrow>
      (\<forall>n. 2 \<le> n \<and> n \<le> length S \<longrightarrow> valid (take n S)) \<and>
      ((\<forall>c\<in>set mapping. valid [c]) \<longrightarrow>
       (\<forall>n. 1 \<le> n \<and> n \<le> length S \<longrightarrow> valid (take n S)))) \<and>
   ((c, s, i) \<in> set (InfoVertex_next p pen dna_string mapping valid self salt j cur) \<longrightarrow>
      (\<exists>n. string c = string self @ [n] \<and> valid (string self @ [n]))) \<and>
   (encode_step p bits strand_index mapping valid (S0, av, loc) = Inr (S1, av1, loc1) \<longrightarrow>
      av \<noteq> [] \<and> av1 \<noteq> [])"
proof (intro conjI impI)
  assume enc: "encode bits strand_index mapping valid p = Some (Inr S)"
  then have run: "encode_loop p bits strand_index mapping valid ([], mapping, 0) = Some (Inr S)"
    by (simp add: encode_def)
  from encode_loop_valid [OF run]
  show "\<forall>n. 2 \<le> n \<and> n \<le> length S \<longrightarrow> valid (take n S)" by simp
  assume "\<forall>c\<in>set mapping. valid [c]"
  with encode_loop_valid [OF run]
  show "\<forall>n. 1 \<le> n \<and> n \<le> length S \<longrightarrow> valid (take n S)" by simp
next
  assume "(c, s, i) \<in> set (InfoVertex_next p pen dna_string mapping valid self salt j cur)"
  from next_child [OF this]
  show "\<exists>n. string c = string self @ [n] \<and> valid (string self @ [n])" by blast
next
  assume st: "encode_step p bits strand_index mapping valid (S0, av, loc) = Inr (S1, av1, loc1)"
  from encode_step_Inr [OF st] obtain n where
    n: "encode_choice p bits strand_index av loc = Inr (n, loc1)" "av1 \<noteq> []" by blast
  from encode_choice_Inr [OF n(1)] show "av \<noteq> []" by simp
  from n(2) show "av1 \<noteq> []" .
qed

theorem constraint_safety_witness:
  "encode [0, 1, 1] 0 ''ACGT'' nothing_after_G default_params = Some (Inr ''AC'') \<and>
   nothing_after_G ''A'' \<and> nothing_after_G ''C'' \<and> nothing_after_G ''G'' \<and>
   nothing_after_G ''T'' \<and>
   nothing_after_G (take 1 ''AC'') \<and> nothing_after_G (take 2 ''AC'') \<and>
   (\<lparr>previous_value = 2, bit_index = 2, string = ''A''\<rparr>, 1, 0)
     \<in> set (InfoVertex_next default_params default_penalties ''T'' ''ACGT'' (\<lambda>s. True)
              \<lparr>previous_value = 0, bit_index = 0, string = []\<rparr> 0 0 0) \<and>
   (\<exists>n. string \<lparr>previous_value = 2, bit_index = 2, string = ''A''\<rparr>
          = string \<lparr>previous_value = 0, bit_index = 0, string = []\<rparr> @ [n])"
proof -
  have singles: "\<forall>c\<in>set ''ACGT''. nothing_after_G [c]"
    by (simp add: nothing_after_G_def)
  have child: "(\<lparr>previous_value = 2, bit_index = 2, string = ''A''\<rparr>, 1 :: rat, 0 :: nat)
     \<in> set (InfoVertex_next default_params default_penalties ''T'' ''ACGT'' (\<lambda>s. True)
              \<lparr>previous_value = 0, bit_index = 0, string = []\<rparr> 0 0 0)"
    by (simp add: next_root_T)
  note safe = constraint_safety [where bits = "[0, 1, 1]" and strand_index = 0
      and mapping = "''ACGT''" and valid = nothing_after_G and p = default_params
      and S = "''AC''"]
  from safe encode_example_G singles
  have prefixes: "\<forall>n. 1 \<le> n \<and> n \<le> length ''AC'' \<longrightarrow> nothing_after_G (take n ''AC'')"
    by blast
  from prefixes [rule_format, of 1] have p1: "nothing_after_G (take 1 ''AC'')" by simp
  from prefixes [rule_format, of 2] have p2: "nothing_after_G (take 2 ''AC'')" by simp
  from constraint_safety [where c = "\<lparr>previous_value = 2, bit_index = 2, string = ''A''\<rparr>"
      and s = 1 and i = 0 and p = default_params and pen = default_penalties
      and dna_string = "''T''" and mapping = "''ACGT''" and valid = "\<lambda>s. True"
      and self = "\<lparr>previous_value = 0, bit_index = 0, string = []\<rparr>"
      and salt = 0 and j = 0 and cur = 0] child
  have app: "\<exists>n. string \<lparr>previous_value = 2, bit_index = 2, string = ''A''\<rparr>
          = string \<lparr>previous_value = 0, bit_index = 0, string = []\<rparr> @ [n]"
    by blast
  from encode_example_G singles p1 p2 child app show ?thesis by simp
qed

section \<open>The repair loop\<close>




lemma repair_loop_continue:
  "repair_pass p pen dna_string strand_index bit_length mapping valid heap_limitation h
     = Inr h' \<Longrightarrow>
   repair_loop p pen dna_string strand_index bit_length mapping valid heap_limitation h
     = repair_loop p pen dna_string strand_index bit_length mapping valid heap_limitation h'"
  by (subst repair_loop.simps) simp


lemma repair_loop_fixed:
  assumes fixed: "repair_pass p pen dna_string strand_index bit_length mapping valid
                    heap_limitation h = Inr h"
  shows "repair_loop p pen dna_string strand_index bit_length mapping valid heap_limitation h
         = None"
proof (rule ccontr)
  assume "repair_loop p pen dna_string strand_index bit_length mapping valid
            heap_limitation h \<noteq> None"
  then obtain y where run: "repair_loop p pen dna_string strand_index bit_length mapping valid
            heap_limitation h = Some y" by auto
  have "\<not> (p = p \<and> pen = pen \<and> dna_string = dna_string \<and> strand_index = strand_index \<and>
           bit_length = bit_length \<and> mapping = mapping \<and> valid = valid \<and>
           heap_limitation = heap_limitation \<and> h = h)"
  proof (rule repair_loop.raw_induct
      [where P = "\<lambda>p' pen' R' si' L' mp' vl' H' h' y.
         \<not> (p' = p \<and> pen' = pen \<and> R' = dna_string \<and> si' = strand_index \<and>
            L' = bit_length \<and> mp' = mapping \<and> vl' = valid \<and> H' = heap_limitation \<and> h' = h)",
       OF _ run])
    fix f p' pen' R' si' L' mp' vl' H' h' y'
    assume IH: "\<And>p' pen' R' si' L' mp' vl' H' h' y. f p' pen' R' si' L' mp' vl' H' h' = Some y \<Longrightarrow>
         \<not> (p' = p \<and> pen' = pen \<and> R' = dna_string \<and> si' = strand_index \<and>
            L' = bit_length \<and> mp' = mapping \<and> vl' = valid \<and> H' = heap_limitation \<and> h' = h)"
      and body: "(case repair_pass p' pen' R' si' L' mp' vl' H' h' of
                    Inl result \<Rightarrow> Some result
                  | Inr h'' \<Rightarrow> f p' pen' R' si' L' mp' vl' H' h'') = Some y'"
    show "\<not> (p' = p \<and> pen' = pen \<and> R' = dna_string \<and> si' = strand_index \<and>
            L' = bit_length \<and> mp' = mapping \<and> vl' = valid \<and> H' = heap_limitation \<and> h' = h)"
    proof
      assume eq: "p' = p \<and> pen' = pen \<and> R' = dna_string \<and> si' = strand_index \<and>
            L' = bit_length \<and> mp' = mapping \<and> vl' = valid \<and> H' = heap_limitation \<and> h' = h"
      with body fixed have "f p pen dna_string strand_index bit_length mapping valid
                              heap_limitation h = Some y'" by simp
      from IH [OF this] show False by simp
    qed
  qed
  then show False by simp
qed

text \<open>
  The one-bit message 0 of strand 0 is encoded as T; passes of the loop on the received
  strings T and the empty string.
\<close>

lemma encode_one_bit:
  "encode [0] 0 ''ACGT'' (\<lambda>s. True) default_params = Some (Inr ''T'')"
proof -
  have s1: "encode_step default_params [0] 0 ''ACGT'' (\<lambda>s. True) ([], ''ACGT'', 0)
            = Inr (''T'', ''ACGT'', 2)"
    by (simp add: encode_step_def encode_choice_def encode_previous_def collect_available_def
        default_params_def hash_value_4_0 Let_def)
  have "encode_loop default_params [0] 0 ''ACGT'' (\<lambda>s. True) ([], ''ACGT'', 0)
        = encode_loop default_params [0] 0 ''ACGT'' (\<lambda>s. True) (''T'', ''ACGT'', 2)"
    by (rule encode_loop_step [OF _ s1]) simp
  also have "\<dots> = Some (Inr ''T'')"
    by (subst encode_loop_stop) simp_all
  finally show ?thesis by (simp only: encode_def)
qed

lemma used_indices_initial: "used_indices (initial_heap initial_score) = [0]"
  by (simp add: used_indices_def initial_heap_def)

lemma repair_pass_empty:
  assumes "0 < bit_length" "0 < heap_limitation"
  shows "repair_pass p pen [] strand_index bit_length mapping valid heap_limitation
           (initial_heap 0) = Inr (initial_heap 0)"
  using assms
  by (simp add: repair_pass_def used_indices_initial)
     (simp add: initial_heap_def InfoVertex_next_def Let_def)

lemma first_pass_T:
  "repair_pass default_params default_penalties ''T'' 0 1 ''ACGT'' (\<lambda>s. True) 1000000
     (initial_heap 0) =
   Inr \<lparr>heap_v = [\<lparr>previous_value = 0, bit_index = 0, string = []\<rparr>,
         \<lparr>previous_value = 0, bit_index = 2, string = ''T''\<rparr>,
         \<lparr>previous_value = 1, bit_index = 2, string = ''T''\<rparr>,
         \<lparr>previous_value = 2, bit_index = 2, string = ''T''\<rparr>,
         \<lparr>previous_value = 3, bit_index = 2, string = ''T''\<rparr>,
         \<lparr>previous_value = 0, bit_index = 2, string = ''T''\<rparr>,
         \<lparr>previous_value = 1, bit_index = 2, string = ''T''\<rparr>,
         \<lparr>previous_value = 2, bit_index = 2, string = ''A''\<rparr>,
         \<lparr>previous_value = 3, bit_index = 2, string = ''A''\<rparr>],
        heap_s = [1, - (1261007895663739 / 36028797018963968), 1, 1, 1, 1, 1, 1, 1],
        heap_i = [0, 1, 1, 1, 1, 0, 0, 0, 0],
        heap_l = [0, 2, 2, 2, 2, 2, 2, 2, 2]\<rparr>"
proof -
  have next0: "InfoVertex_next default_params default_penalties ''T'' ''ACGT'' (\<lambda>s. True)
     \<lparr>previous_value = 0, bit_index = 0, string = []\<rparr> (0 mod 2 ^ salt_number default_params)
     0 0 = InfoVertex_next default_params default_penalties ''T'' ''ACGT'' (\<lambda>s. True)
     \<lparr>previous_value = 0, bit_index = 0, string = []\<rparr> 0 0 0"
    by simp
  show ?thesis
    by (simp add: repair_pass_def used_indices_initial)
       (simp add: initial_heap_def Let_def next0 next_root_T del: mod_0)
qed


lemma second_pass_T:
  "repair_pass default_params default_penalties ''T'' 0 1 ''ACGT'' (\<lambda>s. True) 1000000
     \<lparr>heap_v = [\<lparr>previous_value = 0, bit_index = 0, string = []\<rparr>,
         \<lparr>previous_value = 0, bit_index = 2, string = ''T''\<rparr>,
         \<lparr>previous_value = 1, bit_index = 2, string = ''T''\<rparr>,
         \<lparr>previous_value = 2, bit_index = 2, string = ''T''\<rparr>,
         \<lparr>previous_value = 3, bit_index = 2, string = ''T''\<rparr>,
         \<lparr>previous_value = 0, bit_index = 2, string = ''T''\<rparr>,
         \<lparr>previous_value = 1, bit_index = 2, string = ''T''\<rparr>,
         \<lparr>previous_value = 2, bit_index = 2, string = ''A''\<rparr>,
         \<lparr>previous_value = 3, bit_index = 2, string = ''A''\<rparr>],
        heap_s = [1, - (1261007895663739 / 36028797018963968), 1, 1, 1, 1, 1, 1, 1],
        heap_i = [0, 1, 1, 1, 1, 0, 0, 0, 0],
        heap_l = [0, 2, 2, 2, 2, 2, 2, 2, 2]\<rparr> =
   Inr \<lparr>heap_v = [\<lparr>previous_value = 0, bit_index = 0, string = []\<rparr>,
         \<lparr>previous_value = 0, bit_index = 2, string = ''T''\<rparr>,
         \<lparr>previous_value = 1, bit_index = 2, string = ''T''\<rparr>,
         \<lparr>previous_value = 2, bit_index = 2, string = ''T''\<rparr>,
         \<lparr>previous_value = 3, bit_index = 2, string = ''T''\<rparr>,
         \<lparr>previous_value = 0, bit_index = 2, string = ''T''\<rparr>,
         \<lparr>previous_value = 1, bit_index = 2, string = ''T''\<rparr>,
         \<lparr>previous_value = 2, bit_index = 2, string = ''A''\<rparr>,
         \<lparr>previous_value = 3, bit_index = 2, string = ''A''\<rparr>],
        heap_s = [1, 1, 1, 1, 1, 1, 1, 1, 1],
        heap_i = [0, 1, 1, 1, 1, 0, 0, 0, 0],
        heap_l = [0, 2, 2, 2, 2, 2, 2, 2, 2]\<rparr>"
proof -
  have ui: "used_indices \<lparr>heap_v = [\<lparr>previous_value = 0, bit_index = 0, string = []\<rparr>,
         \<lparr>previous_value = 0, bit_index = 2, string = ''T''\<rparr>,
         \<lparr>previous_value = 1, bit_index = 2, string = ''T''\<rparr>,
         \<lparr>previous_value = 2, bit_index = 2, string = ''T''\<rparr>,
         \<lparr>previous_value = 3, bit_index = 2, string = ''T''\<rparr>,
         \<lparr>previous_value = 0, bit_index = 2, string = ''T''\<rparr>,
         \<lparr>previous_value = 1, bit_index = 2, string = ''T''\<rparr>,
         \<lparr>previous_value = 2, bit_index = 2, string = ''A''\<rparr>,
         \<lparr>previous_value = 3, bit_index = 2, string = ''A''\<rparr>],
        heap_s = [1, - (1261007895663739 / 36028797018963968), 1, 1, 1, 1, 1, 1, 1],
        heap_i = [0, 1, 1, 1, 1, 0, 0, 0, 0],
        heap_l = [0, 2, 2, 2, 2, 2, 2, 2, 2]\<rparr> = [1]"
    by (simp add: used_indices_def)
  show ?thesis
    by (simp only: repair_pass_def ui) (simp add: Let_def InfoVertex_next_def)
qed

section \<open>The children appended by a pass\<close>

text \<open>
  A pass that does not return leaves the old entries of the heap in place, but for the scores
  of the chucks, which it overwrites, and appends the children of every chuck, each computed
  from the minimal score of the heap at the start of the pass.
\<close>

lemma fold_update_append:
  "\<forall>c\<in>set cs. c < length xs \<Longrightarrow>
   fold (\<lambda>c zs. zs[c := v]) cs (xs @ ys) = fold (\<lambda>c zs. zs[c := v]) cs xs @ ys"
  by (induction cs arbitrary: xs) (simp_all add: list_update_append1)

lemma length_fold_update: "length (fold (\<lambda>c zs. zs[c := v]) cs xs) = length xs"
  by (induction cs arbitrary: xs) simp_all

lemma repair_batch_children:
  assumes "repair_batch p pen dna_string strand_index bit_length mapping valid heap_limitation
             used_score cs h = Inr h'"
    and "\<forall>c\<in>set cs. c < length (heap_v h) \<and> c < length (heap_s h) \<and> c < length (heap_i h)"
  shows "\<exists>children.
           heap_v h' = heap_v h @ map fst children \<and>
           heap_s h' = fold (\<lambda>c zs. zs[c := of_nat (length dna_string)]) cs (heap_s h)
                         @ map (fst \<circ> snd) children \<and>
           heap_i h' = heap_i h @ map (snd \<circ> snd) children \<and>
           heap_l h' = heap_l h @ map (bit_index \<circ> fst) children \<and>
           (\<forall>child\<in>set children. \<exists>chuck\<in>set cs.
              child \<in> set (InfoVertex_next p pen dna_string mapping valid (heap_v h ! chuck)
                             (strand_index mod 2 ^ salt_number p) (heap_i h ! chuck)
                             used_score))"
  using assms
proof (induction cs arbitrary: h)
  case Nil
  then show ?case by (intro exI [of _ "[]"]) simp
next
  case (Cons chuck rest)
  define follow where "follow = InfoVertex_next p pen dna_string mapping valid (heap_v h ! chuck)
                             (strand_index mod 2 ^ salt_number p) (heap_i h ! chuck)
                             used_score"
  define h2 where "h2 = \<lparr>heap_v = heap_v h @ map fst follow,
                heap_s = (heap_s h)[chuck := of_nat (length dna_string)] @ map (fst \<circ> snd) follow,
                heap_i = heap_i h @ map (snd \<circ> snd) follow,
                heap_l = heap_l h @ map (bit_index \<circ> fst) follow\<rparr>"
  from Cons.prems(1) have run: "repair_batch p pen dna_string strand_index bit_length mapping
       valid heap_limitation used_score rest h2 = Inr h'"
    by (simp add: Let_def follow_def h2_def split: if_splits)
  from Cons.prems(2) have range: "\<forall>c\<in>set rest. c < length (heap_v h) \<and> c < length (heap_s h) \<and>
       c < length (heap_i h)" by simp
  then have range2: "\<forall>c\<in>set rest. c < length (heap_v h2) \<and> c < length (heap_s h2) \<and>
       c < length (heap_i h2)" by (auto simp: h2_def)
  from Cons.IH [OF run range2] obtain children where
    v: "heap_v h' = heap_v h2 @ map fst children" and
    s: "heap_s h' = fold (\<lambda>c zs. zs[c := of_nat (length dna_string)]) rest (heap_s h2)
                         @ map (fst \<circ> snd) children" and
    i: "heap_i h' = heap_i h2 @ map (snd \<circ> snd) children" and
    l: "heap_l h' = heap_l h2 @ map (bit_index \<circ> fst) children" and
    c: "\<forall>child\<in>set children. \<exists>chuck\<in>set rest.
              child \<in> set (InfoVertex_next p pen dna_string mapping valid (heap_v h2 ! chuck)
                             (strand_index mod 2 ^ salt_number p) (heap_i h2 ! chuck)
                             used_score)"
    by blast
  have s': "fold (\<lambda>c zs. zs[c := of_nat (length dna_string)]) rest (heap_s h2)
            = fold (\<lambda>c zs. zs[c := of_nat (length dna_string)]) (chuck # rest) (heap_s h)
                @ map (fst \<circ> snd) follow"
    using range by (simp add: h2_def fold_update_append)
  have old: "\<And>ck. ck \<in> set rest \<Longrightarrow> heap_v h2 ! ck = heap_v h ! ck \<and> heap_i h2 ! ck = heap_i h ! ck"
    using range by (simp add: h2_def nth_append)
  have c': "\<forall>child\<in>set (follow @ children). \<exists>ck\<in>set (chuck # rest).
              child \<in> set (InfoVertex_next p pen dna_string mapping valid (heap_v h ! ck)
                             (strand_index mod 2 ^ salt_number p) (heap_i h ! ck)
                             used_score)"
  proof
    fix child assume "child \<in> set (follow @ children)"
    then consider "child \<in> set follow" | "child \<in> set children" by auto
    then show "\<exists>ck\<in>set (chuck # rest).
              child \<in> set (InfoVertex_next p pen dna_string mapping valid (heap_v h ! ck)
                             (strand_index mod 2 ^ salt_number p) (heap_i h ! ck)
                             used_score)"
    proof cases
      case 1
      then show ?thesis by (auto simp: follow_def)
    next
      case 2
      with c obtain ck where "ck \<in> set rest"
        "child \<in> set (InfoVertex_next p pen dna_string mapping valid (heap_v h2 ! ck)
                             (strand_index mod 2 ^ salt_number p) (heap_i h2 ! ck)
                             used_score)" by blast
      with old [OF this(1)] show ?thesis by auto
    qed
  qed
  show ?case
    apply (rule exI [of _ "follow @ children"])
    apply (intro conjI)
    subgoal using v by (simp add: h2_def)
    subgoal using s s' by simp
    subgoal using i by (simp add: h2_def)
    subgoal using l by (simp add: h2_def)
    subgoal by (rule c')
    done
qed


lemma used_indices_min:
  "chuck \<in> set (used_indices h) \<Longrightarrow>
   chuck < length (heap_s h) \<and> heap_s h ! chuck = Min (set (heap_s h))"
  by (simp add: used_indices_def)

lemma used_score_min:
  assumes "used_indices h \<noteq> []"
  shows "heap_s h ! (used_indices h ! 0) = Min (set (heap_s h))"
proof -
  from assms have "used_indices h ! 0 \<in> set (used_indices h)" by simp
  then show ?thesis by (simp add: used_indices_min)
qed

lemma repair_pass_children:
  assumes aligned: "heap_aligned h"
    and pass: "repair_pass p pen dna_string strand_index bit_length mapping valid
                 heap_limitation h = Inr h'"
  shows "\<exists>children.
           heap_v h' = heap_v h @ map fst children \<and>
           heap_s h' = fold (\<lambda>c zs. zs[c := of_nat (length dna_string)]) (used_indices h)
                         (heap_s h) @ map (fst \<circ> snd) children \<and>
           heap_i h' = heap_i h @ map (snd \<circ> snd) children \<and>
           heap_l h' = heap_l h @ map (bit_index \<circ> fst) children \<and>
           (\<forall>child\<in>set children. \<exists>chuck\<in>set (used_indices h).
              child \<in> set (InfoVertex_next p pen dna_string mapping valid (heap_v h ! chuck)
                             (strand_index mod 2 ^ salt_number p) (heap_i h ! chuck)
                             (Min (set (heap_s h)))))"
proof (cases "used_indices h = []")
  case True
  with pass have "h' = h" by (simp add: repair_pass_def)
  with True show ?thesis by (intro exI [of _ "[]"]) simp
next
  case False
  have range: "\<forall>c\<in>set (used_indices h).
                 c < length (heap_v h) \<and> c < length (heap_s h) \<and> c < length (heap_i h)"
    using aligned by (simp add: used_indices_def heap_aligned_def)
  from pass have "repair_batch p pen dna_string strand_index bit_length mapping valid
       heap_limitation (Min (set (heap_s h))) (used_indices h) h = Inr h'"
    by (simp add: repair_pass_def used_score_min [OF False])
  from repair_batch_children [OF this range] show ?thesis .
qed

lemma repair_pass_aligned:
  assumes "heap_aligned h"
    and "repair_pass p pen dna_string strand_index bit_length mapping valid
           heap_limitation h = Inr h'"
  shows "heap_aligned h'"
  using repair_pass_children [OF assms] assms(1)
  by (auto simp: heap_aligned_def length_fold_update)


section \<open>Scores along the edges of the search\<close>




section \<open>Exit on the heap bound\<close>




section \<open>Termination of the search\<close>

text \<open>
  C4: the received string T is the encoding of the one-bit message 0 of strand 0. After the
  first pass of repair with the target length 1 the frontier has nine entries and its
  largest bit count is 2, above the target; the second pass does not return but goes on
  with the search.
\<close>

theorem overshoot_does_not_terminate:
  "encode [0] 0 ''ACGT'' (\<lambda>s. True) default_params = Some (Inr ''T'') \<and>
   (case repair_pass default_params default_penalties ''T'' 0 1 ''ACGT'' (\<lambda>s. True) 1000000
           (initial_heap 0) of
      Inl result \<Rightarrow> False
    | Inr h \<Rightarrow>
        Max (set (heap_l h)) = 2 \<and> length (heap_v h) = 9 \<and>
        (case repair_pass default_params default_penalties ''T'' 0 1 ''ACGT'' (\<lambda>s. True)
                1000000 h of
           Inl result \<Rightarrow> False
         | Inr h' \<Rightarrow> length (heap_v h') = 9))"
  apply (rule conjI)
   apply (rule encode_one_bit)
  apply (simp only: first_pass_T sum.case)
  apply (simp only: second_pass_T sum.case)
  apply simp
  done

text \<open>
  C5: on the empty received string with the target length 1 and the default heap bound
  repair never returns: the root is retired with the score 0, the length of the received
  string, which is the minimum again in the next pass.
\<close>

theorem repair_empty_string_diverges:
  "repair [] 0 0 1 ''ACGT'' (\<lambda>s. True) default_params 1000000 default_penalties = None"
  unfolding repair_def
  by (rule repair_loop_fixed) (rule repair_pass_empty, simp_all)

section \<open>Repair: a vertex past the end of the received string\<close>

text \<open>
  C10: a vertex whose index into the received string is at least the length of that string
  has no children at all, of no hypothesis (the deletion children included), whatever its
  own string, the oracle and the score.
\<close>

theorem next_past_the_end:
  "length dna_string \<le> nucleotide_index \<Longrightarrow>
   InfoVertex_next p pen dna_string mapping valid self salt_value nucleotide_index
     current_score = []"
  by (simp add: InfoVertex_next_def)

theorem next_past_the_end_witness:
  "length ''T'' \<le> (1 :: nat) \<and>
   InfoVertex_next default_params default_penalties ''T'' ''ACGT'' (\<lambda>s. True)
     \<lparr>previous_value = 0, bit_index = 2, string = ''T''\<rparr> 0 1
     (- (1261007895663739 / 36028797018963968)) = []"
proof -
  have h: "length ''T'' \<le> (1 :: nat)" by simp
  show ?thesis
    using h next_past_the_end [OF h, of default_params default_penalties "''ACGT''"
        "\<lambda>s. True" "\<lparr>previous_value = 0, bit_index = 2, string = ''T''\<rparr>" 0
        "- (1261007895663739 / 36028797018963968)"]
    by simp
qed

end
